theory Spec2Isabelle
  imports Main "HOL-Library.Word" "HOL-Library.AList"
begin

section \<open>Data model\<close>

text \<open>
  The relay keeps two process-wide containers, \<open>peerConnections\<close> and \<open>trackLocals\<close>.
  The transport engine, the JSON codec and the websocket are libraries outside the
  program: they enter the model as a record of functions over an abstract connection
  state \<open>'pc\<close> and an abstract channel state \<open>'ws\<close>. A Go \<open>error\<close> result is a
  \<open>bool\<close> (\<open>True\<close> when \<open>err != nil\<close>) or \<open>None\<close> where a value is returned with it.
\<close>

datatype PeerConnectionState =
    PeerConnectionStateUnknown
  | PeerConnectionStateNew
  | PeerConnectionStateConnecting
  | PeerConnectionStateConnected
  | PeerConnectionStateDisconnected
  | PeerConnectionStateFailed
  | PeerConnectionStateClosed

record RTPCodecCapability =
  MimeType :: string
  ClockRate :: "32 word"

record TrackLocalStaticRTP =
  tl_codec :: RTPCodecCapability
  tl_id :: string
  tl_streamID :: string

record TrackRemote =
  tr_codec :: RTPCodecCapability
  tr_id :: string
  tr_streamID :: string
  tr_ssrc :: "32 word"

text \<open>
  A sender or receiver handle as \<open>GetSenders\<close>/\<open>GetReceivers\<close> hand it out: the handle's
  identity and what \<open>Track()\<close> answers (\<open>None\<close> for \<open>nil\<close>); for a sender only the
  track's \<open>ID()\<close> is read. The source asks each handle for its track while its loop
  runs; the model reads the answer from the list, so a \<open>RemoveTrack\<close> on one sender is
  taken not to change what the senders after it in the list answer.
\<close>

record RTPSender =
  sender_handle :: nat
  sender_track :: "string option"

record RTPReceiver =
  receiver_handle :: nat
  receiver_track :: "TrackRemote option"

record websocketMessage =
  Event :: string
  Data :: string

record SessionDescription =
  sdp_type :: string
  sdp :: string

record ICECandidateInit =
  Candidate :: string

record ('pc, 'ws) peerConnectionState =
  peerConnection :: 'pc
  websocket :: 'ws

text \<open>The shared state guarded by \<open>listLock\<close>.\<close>

record ('pc, 'ws) sfu =
  peerConnections :: "('pc, 'ws) peerConnectionState list"
  trackLocals :: "(string \<times> TrackLocalStaticRTP) list"

record ('pc, 'ws) engine =
  ConnectionState :: "'pc \<Rightarrow> PeerConnectionState"
  GetSenders :: "'pc \<Rightarrow> RTPSender list"
  GetReceivers :: "'pc \<Rightarrow> RTPReceiver list"
  RemoveTrack :: "'pc \<Rightarrow> RTPSender \<Rightarrow> bool \<times> 'pc"
  AddTrack :: "'pc \<Rightarrow> TrackLocalStaticRTP \<Rightarrow> bool \<times> 'pc"
  CreateOffer :: "'pc \<Rightarrow> SessionDescription option \<times> 'pc"
  SetLocalDescription :: "'pc \<Rightarrow> SessionDescription \<Rightarrow> bool \<times> 'pc"
  json_Marshal :: "SessionDescription \<Rightarrow> string option"
  WriteJSON :: "'ws \<Rightarrow> websocketMessage \<Rightarrow> bool \<times> 'ws"
  WriteRTCP :: "'pc \<Rightarrow> 32 word \<Rightarrow> 'pc"
  NewTrackLocalStaticRTP_fails :: "RTPCodecCapability \<Rightarrow> string \<Rightarrow> string \<Rightarrow> bool"
  json_Unmarshal_candidate :: "string \<Rightarrow> ICECandidateInit option"
  AddICECandidate :: "'pc \<Rightarrow> ICECandidateInit \<Rightarrow> bool \<times> 'pc"
  json_Unmarshal_answer :: "string \<Rightarrow> SessionDescription option"
  SetRemoteDescription :: "'pc \<Rightarrow> SessionDescription \<Rightarrow> bool \<times> 'pc"
  pc_Close :: "'pc \<Rightarrow> 'pc"
  ws_Close :: "'ws \<Rightarrow> 'ws"

text \<open>
  What a reconciliation pass does to the outside world, in the order it does it. Calls on
  a session are tagged with the session's index \<open>i\<close> in \<open>peerConnections\<close> by
  \<open>attemptSync\<close>.
\<close>

datatype call =
    Pruned
  | RemoveTrackCall RTPSender
  | AddTrackCall TrackLocalStaticRTP
  | CreateOfferCall
  | SetLocalDescriptionCall SessionDescription
  | WriteJSONCall websocketMessage

section \<open>The reconciliation pass\<close>

text \<open>
  The loop over \<open>GetSenders()\<close>: a sender without a track is skipped; a bound sender is
  entered in \<open>existingSenders\<close>, and removed from the connection when its track is no
  longer in \<open>trackLocals\<close>. A failing \<open>RemoveTrack\<close> leaves the pass (\<open>return true\<close>).
  The result is (failed, connection, existingSenders, calls made).
\<close>

fun sendersLoop ::
  "('pc, 'ws) engine \<Rightarrow> (string \<times> TrackLocalStaticRTP) list \<Rightarrow> 'pc \<Rightarrow> (string \<rightharpoonup> bool) \<Rightarrow>
   call list \<Rightarrow> RTPSender list \<Rightarrow> bool \<times> 'pc \<times> (string \<rightharpoonup> bool) \<times> call list" where
  "sendersLoop E tracks pc existingSenders log [] = (False, pc, existingSenders, log)"
| "sendersLoop E tracks pc existingSenders log (sender # rest) =
     (case sender_track sender of
        None \<Rightarrow> sendersLoop E tracks pc existingSenders log rest
      | Some tid \<Rightarrow>
          (let existingSenders' = existingSenders(tid \<mapsto> True) in
           if map_of tracks tid = None then
             (case RemoveTrack E pc sender of
                (err, pc') \<Rightarrow>
                  if err then (True, pc', existingSenders', log @ [RemoveTrackCall sender])
                  else sendersLoop E tracks pc' existingSenders' (log @ [RemoveTrackCall sender]) rest)
           else sendersLoop E tracks pc existingSenders' log rest))"

text \<open>The loop over \<open>GetReceivers()\<close>: every bound receiver's track is entered too.\<close>

fun receiversLoop :: "(string \<rightharpoonup> bool) \<Rightarrow> RTPReceiver list \<Rightarrow> (string \<rightharpoonup> bool)" where
  "receiversLoop existingSenders [] = existingSenders"
| "receiversLoop existingSenders (receiver # rest) =
     (case receiver_track receiver of
        None \<Rightarrow> receiversLoop existingSenders rest
      | Some t \<Rightarrow> receiversLoop (existingSenders(tr_id t \<mapsto> True)) rest)"

text \<open>
  The loop \<open>for trackID := range trackLocals\<close>. The registry is an association list
  whose order stands for the order in which Go happens to range over the map; the pair
  \<open>(trackID, trackLocal)\<close> is the key with \<open>trackLocals[trackID]\<close>.
\<close>

fun addLoop ::
  "('pc, 'ws) engine \<Rightarrow> 'pc \<Rightarrow> (string \<rightharpoonup> bool) \<Rightarrow> call list \<Rightarrow>
   (string \<times> TrackLocalStaticRTP) list \<Rightarrow> bool \<times> 'pc \<times> call list" where
  "addLoop E pc existingSenders log [] = (False, pc, log)"
| "addLoop E pc existingSenders log ((trackID, trackLocal) # rest) =
     (if existingSenders trackID = None then
        (case AddTrack E pc trackLocal of
           (err, pc') \<Rightarrow>
             if err then (True, pc', log @ [AddTrackCall trackLocal])
             else addLoop E pc' existingSenders (log @ [AddTrackCall trackLocal]) rest)
      else addLoop E pc existingSenders log rest)"

text \<open>
  The body of the session loop for a connection that is not closed (lines 137 to 195):
  the three loops, then offer, local description, serialisation and the push of the
  \<open>offer\<close> event. The result is (failed, session, calls made); \<open>failed\<close> is the
  \<open>return true\<close> of the source.
\<close>

definition syncSession ::
  "('pc, 'ws) engine \<Rightarrow> (string \<times> TrackLocalStaticRTP) list \<Rightarrow> ('pc, 'ws) peerConnectionState \<Rightarrow>
   bool \<times> ('pc, 'ws) peerConnectionState \<times> call list" where
  "syncSession E tracks p =
     (case sendersLoop E tracks (peerConnection p) Map.empty [] (GetSenders E (peerConnection p)) of
        (err1, pc1, existing1, log1) \<Rightarrow>
          if err1 then (True, p\<lparr>peerConnection := pc1\<rparr>, log1)
          else
            (case addLoop E pc1 (receiversLoop existing1 (GetReceivers E pc1)) log1 tracks of
               (err2, pc2, log2) \<Rightarrow>
                 if err2 then (True, p\<lparr>peerConnection := pc2\<rparr>, log2)
                 else
                   (case CreateOffer E pc2 of
                      (None, pc3) \<Rightarrow> (True, p\<lparr>peerConnection := pc3\<rparr>, log2 @ [CreateOfferCall])
                    | (Some offer, pc3) \<Rightarrow>
                        (case SetLocalDescription E pc3 offer of
                           (err4, pc4) \<Rightarrow>
                             if err4 then
                               (True, p\<lparr>peerConnection := pc4\<rparr>,
                                log2 @ [CreateOfferCall, SetLocalDescriptionCall offer])
                             else
                               (case json_Marshal E offer of
                                  None \<Rightarrow>
                                    (True, p\<lparr>peerConnection := pc4\<rparr>,
                                     log2 @ [CreateOfferCall, SetLocalDescriptionCall offer])
                                | Some offerString \<Rightarrow>
                                    (case WriteJSON E (websocket p)
                                            \<lparr>Event = ''offer'', Data = offerString\<rparr> of
                                       (err5, ws') \<Rightarrow>
                                         (err5, \<lparr>peerConnection = pc4, websocket = ws'\<rparr>,
                                          log2 @ [CreateOfferCall, SetLocalDescriptionCall offer,
                                                  WriteJSONCall \<lparr>Event = ''offer'', Data = offerString\<rparr>])))))))"

text \<open>
  \<open>attemptSync\<close>: \<open>for i := range peerConnections\<close>. A closed connection is cut out of
  the slice (\<open>append(peerConnections[:i], peerConnections[i+1:]...)\<close>) and the pass
  returns \<open>true\<close>; any failure of the body returns \<open>true\<close>; running off the end returns
  \<open>false\<close>. The connection objects are pointers in the source; here the entry at \<open>i\<close> is
  replaced by the connection as the engine left it.
\<close>

function attemptSync_from ::
  "('pc, 'ws) engine \<Rightarrow> (string \<times> TrackLocalStaticRTP) list \<Rightarrow> nat \<Rightarrow>
   ('pc, 'ws) peerConnectionState list \<Rightarrow> (nat \<times> call) list \<Rightarrow>
   bool \<times> ('pc, 'ws) peerConnectionState list \<times> (nat \<times> call) list" where
  "attemptSync_from E tracks i pcs log =
     (if i < length pcs then
        (if ConnectionState E (peerConnection (pcs ! i)) = PeerConnectionStateClosed then
           (True, take i pcs @ drop (Suc i) pcs, log @ [(i, Pruned)])
         else
           (case syncSession E tracks (pcs ! i) of
              (failed, p', calls) \<Rightarrow>
                if failed then (True, pcs[i := p'], log @ map (Pair i) calls)
                else attemptSync_from E tracks (Suc i) (pcs[i := p']) (log @ map (Pair i) calls)))
      else (False, pcs, log))"
  by pat_completeness auto
termination
  by (relation "measure (\<lambda>(E, tracks, i, pcs, log). length pcs - i)") auto

definition attemptSync ::
  "('pc, 'ws) engine \<Rightarrow> ('pc, 'ws) sfu \<Rightarrow> bool \<times> ('pc, 'ws) sfu \<times> (nat \<times> call) list" where
  "attemptSync E s =
     (case attemptSync_from E (trackLocals s) 0 (peerConnections s) [] of
        (tryAgain, pcs, log) \<Rightarrow> (tryAgain, s\<lparr>peerConnections := pcs\<rparr>, log))"

section \<open>signalPeerConnections\<close>

text \<open>
  What one call of \<open>signalPeerConnections\<close> does, in order: each run of \<open>attemptSync\<close>
  with its result and its calls, and the goroutine it starts (\<open>time.Sleep\<close> for the
  given duration, then \<open>signalPeerConnections\<close> again). A \<open>time.Duration\<close> counts
  nanoseconds.
\<close>

datatype effect =
    Pass bool "(nat \<times> call) list"
  | GoSleepThenSignal int

definition time_Second :: int where
  "time_Second = 1000000000"

text \<open>
  \<open>for syncAttempt := 0; ; syncAttempt++\<close>. \<open>syncAttempt\<close> is a Go \<open>int\<close> (64 bits,
  \<open>++\<close> wraps), compared with 25 by \<open>==\<close>.
\<close>

function syncLoop ::
  "('pc, 'ws) engine \<Rightarrow> 64 word \<Rightarrow> ('pc, 'ws) sfu \<Rightarrow> effect list \<Rightarrow> ('pc, 'ws) sfu \<times> effect list" where
  "syncLoop E syncAttempt s eff =
     (if syncAttempt = 25 then (s, eff @ [GoSleepThenSignal (time_Second * 3)])
      else
        (case attemptSync E s of
           (tryAgain, s', log) \<Rightarrow>
             if \<not> tryAgain then (s', eff @ [Pass False log])
             else syncLoop E (syncAttempt + 1) s' (eff @ [Pass True log])))"
  by pat_completeness auto
termination
proof (relation "measure (\<lambda>(E, syncAttempt, s, eff). unat (25 - syncAttempt))")
  show "wf (measure (\<lambda>(E, syncAttempt, s, eff). unat (25 - syncAttempt)))"
    by simp
next
  fix E :: "('pc, 'ws) engine" and syncAttempt :: "64 word" and s :: "('pc, 'ws) sfu"
    and eff :: "effect list" and x xa y xb ya
  assume ne: "syncAttempt \<noteq> 25"
  define w where "w = 25 - syncAttempt"
  have nz: "w \<noteq> 0"
    using ne by (auto simp: w_def)
  have step: "25 - (syncAttempt + 1) = w - 1"
    by (simp add: w_def)
  have "unat w \<noteq> 0"
    using nz by (simp add: unat_eq_zero)
  then have "unat (w - 1) < unat w"
    using nz by (simp add: unat_minus_one)
  then show "((E, syncAttempt + 1, xa, eff @ [Pass True xb]), (E, syncAttempt, s, eff))
        \<in> measure (\<lambda>(E, syncAttempt, s, eff). unat (25 - syncAttempt))"
    unfolding in_measure prod.case step w_def [symmetric] .
qed

text \<open>
  \<open>dispatchKeyFrame\<close>: for every session and every receiver with a bound track, one
  picture-loss indication for the track's SSRC; the result of \<open>WriteRTCP\<close> is dropped.
\<close>

fun keyFrameReceivers :: "('pc, 'ws) engine \<Rightarrow> 'pc \<Rightarrow> RTPReceiver list \<Rightarrow> 'pc" where
  "keyFrameReceivers E pc [] = pc"
| "keyFrameReceivers E pc (receiver # rest) =
     (case receiver_track receiver of
        None \<Rightarrow> keyFrameReceivers E pc rest
      | Some t \<Rightarrow> keyFrameReceivers E (WriteRTCP E pc (tr_ssrc t)) rest)"

definition dispatchKeyFrame :: "('pc, 'ws) engine \<Rightarrow> ('pc, 'ws) sfu \<Rightarrow> ('pc, 'ws) sfu" where
  "dispatchKeyFrame E s =
     s\<lparr>peerConnections :=
         map (\<lambda>p. p\<lparr>peerConnection :=
                     keyFrameReceivers E (peerConnection p) (GetReceivers E (peerConnection p))\<rparr>)
           (peerConnections s)\<rparr>"

text \<open>
  The whole call: the retry loop under the lock, then (deferred, on every way out) the
  unlock and \<open>dispatchKeyFrame\<close>.
\<close>

definition signalPeerConnections ::
  "('pc, 'ws) engine \<Rightarrow> ('pc, 'ws) sfu \<Rightarrow> ('pc, 'ws) sfu \<times> effect list" where
  "signalPeerConnections E s =
     (case syncLoop E 0 s [] of (s', eff) \<Rightarrow> (dispatchKeyFrame E s', eff))"

section \<open>Publish and unpublish\<close>

datatype panic = Panic

text \<open>
  \<open>addTrack\<close>: the new local track takes codec, id and stream id of the remote track and
  is stored under \<open>t.ID()\<close>; the deferred function then runs \<open>signalPeerConnections\<close>.
  A failing constructor panics: the deferred function still runs, then the panic goes on
  and ends the process.
\<close>

definition addTrack ::
  "('pc, 'ws) engine \<Rightarrow> ('pc, 'ws) sfu \<Rightarrow> TrackRemote \<Rightarrow>
   panic + (TrackLocalStaticRTP \<times> ('pc, 'ws) sfu \<times> effect list)" where
  "addTrack E s t =
     (if NewTrackLocalStaticRTP_fails E (tr_codec t) (tr_id t) (tr_streamID t) then Inl Panic
      else
        (let trackLocal = \<lparr>tl_codec = tr_codec t, tl_id = tr_id t, tl_streamID = tr_streamID t\<rparr>
         in Inr (trackLocal,
                 signalPeerConnections E
                   (s\<lparr>trackLocals := AList.update (tr_id t) trackLocal (trackLocals s)\<rparr>))))"

text \<open>\<open>removeTrack\<close>: \<open>delete(trackLocals, t.ID())\<close>, then \<open>signalPeerConnections\<close>.\<close>

definition removeTrack ::
  "('pc, 'ws) engine \<Rightarrow> ('pc, 'ws) sfu \<Rightarrow> TrackLocalStaticRTP \<Rightarrow> ('pc, 'ws) sfu \<times> effect list" where
  "removeTrack E s t =
     signalPeerConnections E (s\<lparr>trackLocals := AList.delete (tl_id t) (trackLocals s)\<rparr>)"


section \<open>The relay loop of an inbound track\<close>

record rtp_Extension =
  ext_id :: "8 word"
  ext_payload :: "8 word list"

record rtp_Packet =
  Version :: "8 word"
  Padding :: bool
  Extension :: bool
  Marker :: bool
  PayloadType :: "8 word"
  SequenceNumber :: "16 word"
  Timestamp :: "32 word"
  SSRC :: "32 word"
  CSRC :: "32 word list"
  ExtensionProfile :: "16 word"
  Extensions :: "rtp_Extension list"
  Payload :: "8 word list"

text \<open>
  One turn of the \<open>for\<close> loop in the \<open>OnTrack\<close> callback, as the outside answers it:
  \<open>t.Read\<close> fails; or it succeeds and \<open>Unmarshal\<close> fails; or both succeed and give a
  packet, and \<open>WriteRTP\<close> then fails (\<open>True\<close>) or not.
\<close>

datatype relay_input =
    ReadFails
  | UnmarshalFails
  | Packet rtp_Packet bool

text \<open>
  The loop either sits in \<open>t.Read\<close> waiting for the next packet (the inputs so far are
  used up) or has returned.
\<close>

datatype loop_status = Reading | Returned

text \<open>\<open>written\<close> collects the packets handed to \<open>trackLocal.WriteRTP\<close>, in order.\<close>

fun relayLoop :: "rtp_Packet list \<Rightarrow> relay_input list \<Rightarrow> loop_status \<times> rtp_Packet list" where
  "relayLoop written [] = (Reading, written)"
| "relayLoop written (ReadFails # rest) = (Returned, written)"
| "relayLoop written (UnmarshalFails # rest) = (Returned, written)"
| "relayLoop written (Packet pkt writeErr # rest) =
     (let rtpPkt = pkt\<lparr>Extension := False, Extensions := []\<rparr> in
      if writeErr then (Returned, written @ [rtpPkt])
      else relayLoop (written @ [rtpPkt]) rest)"

text \<open>
  The callback after \<open>addTrack\<close>: the loop, and once it has returned the deferred
  \<open>removeTrack(trackLocal)\<close>, on the shared state as it is then.
\<close>

definition relayThenRemove ::
  "('pc, 'ws) engine \<Rightarrow> ('pc, 'ws) sfu \<Rightarrow> TrackLocalStaticRTP \<Rightarrow> relay_input list \<Rightarrow>
   loop_status \<times> ('pc, 'ws) sfu \<times> rtp_Packet list \<times> effect list" where
  "relayThenRemove E s trackLocal inputs =
     (case relayLoop [] inputs of
        (Reading, written) \<Rightarrow> (Reading, s, written, [])
      | (Returned, written) \<Rightarrow>
          (case removeTrack E s trackLocal of (s', eff) \<Rightarrow> (Returned, s', written, eff)))"

text \<open>The whole \<open>OnTrack\<close> callback, run on its own.\<close>

definition onTrack ::
  "('pc, 'ws) engine \<Rightarrow> ('pc, 'ws) sfu \<Rightarrow> TrackRemote \<Rightarrow> relay_input list \<Rightarrow>
   panic + (loop_status \<times> ('pc, 'ws) sfu \<times> rtp_Packet list \<times> effect list)" where
  "onTrack E s t inputs =
     (case addTrack E s t of
        Inl e \<Rightarrow> Inl e
      | Inr (trackLocal, s1, eff1) \<Rightarrow>
          (case relayThenRemove E s1 trackLocal inputs of
             (st, s2, written, eff2) \<Rightarrow> Inr (st, s2, written, eff1 @ eff2)))"

section \<open>Relay loops coming and going\<close>

text \<open>
  Callbacks of several tracks run side by side; the shared state changes only inside
  \<open>addTrack\<close> and \<open>removeTrack\<close>, each under \<open>listLock\<close>. So a history is a sequence
  of two kinds of events: a track arrives (its callback starts with \<open>addTrack\<close>), or
  the relay loop of the \<open>n\<close>-th callback still running ends (its deferred \<open>removeTrack\<close>
  runs). \<open>relays\<close> lists the local tracks held by the callbacks whose loop is running.
\<close>

record ('pc, 'ws) world =
  shared :: "('pc, 'ws) sfu"
  relays :: "TrackLocalStaticRTP list"

datatype track_event = TrackArrives TrackRemote | RelayEnds nat

fun step ::
  "('pc, 'ws) engine \<Rightarrow> ('pc, 'ws) world \<Rightarrow> track_event \<Rightarrow> panic + ('pc, 'ws) world" where
  "step E w (TrackArrives t) =
     (case addTrack E (shared w) t of
        Inl e \<Rightarrow> Inl e
      | Inr (trackLocal, s', eff) \<Rightarrow> Inr \<lparr>shared = s', relays = relays w @ [trackLocal]\<rparr>)"
| "step E w (RelayEnds n) =
     (if n < length (relays w) then
        (case removeTrack E (shared w) (relays w ! n) of
           (s', eff) \<Rightarrow> Inr \<lparr>shared = s', relays = take n (relays w) @ drop (Suc n) (relays w)\<rparr>)
      else Inr w)"


section \<open>The signaling read loop\<close>







section \<open>Notions used to state the properties\<close>

text \<open>The identifiers of the tracks bound to a list of senders, or of receivers.\<close>

definition boundSenderIDs :: "RTPSender list \<Rightarrow> string list" where
  "boundSenderIDs senders =
     concat (map (\<lambda>s. case sender_track s of None \<Rightarrow> [] | Some tid \<Rightarrow> [tid]) senders)"

definition boundReceiverIDs :: "RTPReceiver list \<Rightarrow> string list" where
  "boundReceiverIDs receivers =
     concat (map (\<lambda>r. case receiver_track r of None \<Rightarrow> [] | Some t \<Rightarrow> [tr_id t]) receivers)"

text \<open>A sender is stale when it is bound to a track that the registry no longer has.\<close>

definition staleSender :: "(string \<times> TrackLocalStaticRTP) list \<Rightarrow> RTPSender \<Rightarrow> bool" where
  "staleSender tracks sender =
     (case sender_track sender of None \<Rightarrow> False | Some tid \<Rightarrow> map_of tracks tid = None)"

definition removedSenders :: "call list \<Rightarrow> RTPSender list" where
  "removedSenders log = concat (map (\<lambda>c. case c of RemoveTrackCall s \<Rightarrow> [s] | _ \<Rightarrow> []) log)"

definition addedTracks :: "call list \<Rightarrow> TrackLocalStaticRTP list" where
  "addedTracks log = concat (map (\<lambda>c. case c of AddTrackCall t \<Rightarrow> [t] | _ \<Rightarrow> []) log)"

text \<open>
  The connection of a session as the loop over its senders leaves it; this is the
  connection whose receivers the pass then enumerates.
\<close>

definition afterSenders ::
  "('pc, 'ws) engine \<Rightarrow> (string \<times> TrackLocalStaticRTP) list \<Rightarrow> ('pc, 'ws) peerConnectionState \<Rightarrow> 'pc" where
  "afterSenders E tracks p =
     fst (snd (sendersLoop E tracks (peerConnection p) Map.empty []
                 (GetSenders E (peerConnection p))))"

definition receiversSeen ::
  "('pc, 'ws) engine \<Rightarrow> (string \<times> TrackLocalStaticRTP) list \<Rightarrow> ('pc, 'ws) peerConnectionState \<Rightarrow>
   RTPReceiver list" where
  "receiversSeen E tracks p = GetReceivers E (afterSenders E tracks p)"

text \<open>
  The tracks "already accounted for" of a session: the identifiers bound to its senders
  and to its receivers, as the pass enumerates them.
\<close>

definition accountedFor ::
  "('pc, 'ws) engine \<Rightarrow> (string \<times> TrackLocalStaticRTP) list \<Rightarrow> ('pc, 'ws) peerConnectionState \<Rightarrow>
   string set" where
  "accountedFor E tracks p =
     set (boundSenderIDs (GetSenders E (peerConnection p))) \<union>
     set (boundReceiverIDs (receiversSeen E tracks p))"

text \<open>Every entry of the registry is stored under the identifier of its track.\<close>

definition registry_ok :: "(string \<times> TrackLocalStaticRTP) list \<Rightarrow> bool" where
  "registry_ok tracks = list_all (\<lambda>kt. tl_id (snd kt) = fst kt) tracks"

text \<open>The calls of a pass that went to the session at index \<open>j\<close>.\<close>

definition sessionCalls :: "nat \<Rightarrow> (nat \<times> call) list \<Rightarrow> call list" where
  "sessionCalls j log = map snd (filter (\<lambda>ic. fst ic = j) log)"

text \<open>
  What a pass does at index \<open>j\<close> of the list it was started on, if it gets there, and
  whether it stops there.
\<close>

definition callsAt ::
  "('pc, 'ws) engine \<Rightarrow> (string \<times> TrackLocalStaticRTP) list \<Rightarrow>
   ('pc, 'ws) peerConnectionState list \<Rightarrow> nat \<Rightarrow> (nat \<times> call) list" where
  "callsAt E tracks pcs j =
     (if ConnectionState E (peerConnection (pcs ! j)) = PeerConnectionStateClosed then [(j, Pruned)]
      else map (Pair j) (snd (snd (syncSession E tracks (pcs ! j)))))"

definition stopsAt ::
  "('pc, 'ws) engine \<Rightarrow> (string \<times> TrackLocalStaticRTP) list \<Rightarrow>
   ('pc, 'ws) peerConnectionState list \<Rightarrow> nat \<Rightarrow> bool" where
  "stopsAt E tracks pcs j =
     (ConnectionState E (peerConnection (pcs ! j)) = PeerConnectionStateClosed \<or>
      fst (syncSession E tracks (pcs ! j)))"

definition closedAt :: "('pc, 'ws) engine \<Rightarrow> ('pc, 'ws) peerConnectionState list \<Rightarrow> nat \<Rightarrow> bool" where
  "closedAt E pcs j = (ConnectionState E (peerConnection (pcs ! j)) = PeerConnectionStateClosed)"

definition processed ::
  "('pc, 'ws) engine \<Rightarrow> (string \<times> TrackLocalStaticRTP) list \<Rightarrow>
   ('pc, 'ws) peerConnectionState list \<Rightarrow> nat \<Rightarrow> ('pc, 'ws) peerConnectionState" where
  "processed E tracks pcs j = fst (snd (syncSession E tracks (pcs ! j)))"

text \<open>
  A list of effects replays from a state when each of its passes is the answer of
  \<open>attemptSync\<close> on the state that the pass before it left.
\<close>

fun replays :: "('pc, 'ws) engine \<Rightarrow> ('pc, 'ws) sfu \<Rightarrow> effect list \<Rightarrow> bool" where
  "replays E s [] = True"
| "replays E s (Pass r log # rest) =
     (case attemptSync E s of (r', s', log') \<Rightarrow> r' = r \<and> log' = log \<and> replays E s' rest)"
| "replays E s (GoSleepThenSignal d # rest) = replays E s rest"

text \<open>A turn of the relay loop fails when the read, the unmarshalling or the write fails.\<close>

fun turnFails :: "relay_input \<Rightarrow> bool" where
  "turnFails ReadFails = True"
| "turnFails UnmarshalFails = True"
| "turnFails (Packet pkt writeErr) = writeErr"

text \<open>A packet with its header extension cleared, and the packets a list of turns reads.\<close>

definition cleared :: "rtp_Packet \<Rightarrow> rtp_Packet" where
  "cleared pkt = pkt\<lparr>Extension := False, Extensions := []\<rparr>"

fun packetsOf :: "relay_input list \<Rightarrow> rtp_Packet list" where
  "packetsOf [] = []"
| "packetsOf (Packet pkt writeErr # rest) = pkt # packetsOf rest"
| "packetsOf (x # rest) = packetsOf rest"




section \<open>A small engine to run the model on\<close>

text \<open>
  A connection that is nothing but its state, its senders and its receivers, and a
  channel that is the list of messages written to it. \<open>RemoveTrack\<close> unbinds the track of
  the sender it is given, \<open>AddTrack\<close> appends a sender bound to the track, and no call
  fails. Engines that fail are variations of this one.
\<close>

record stub_pc =
  pc_state :: PeerConnectionState
  pc_senders :: "RTPSender list"
  pc_receivers :: "RTPReceiver list"

definition stubEngine :: "(stub_pc, websocketMessage list) engine" where
  "stubEngine =
     \<lparr>ConnectionState = pc_state,
      GetSenders = pc_senders,
      GetReceivers = pc_receivers,
      RemoveTrack = (\<lambda>pc sender.
         (False, pc\<lparr>pc_senders :=
                      map (\<lambda>x. if sender_handle x = sender_handle sender
                                then x\<lparr>sender_track := None\<rparr> else x) (pc_senders pc)\<rparr>)),
      AddTrack = (\<lambda>pc t.
         (False, pc\<lparr>pc_senders :=
                      pc_senders pc @
                      [\<lparr>sender_handle = length (pc_senders pc), sender_track = Some (tl_id t)\<rparr>]\<rparr>)),
      CreateOffer = (\<lambda>pc. (Some \<lparr>sdp_type = ''offer'', sdp = ''v=0''\<rparr>, pc)),
      SetLocalDescription = (\<lambda>pc d. (False, pc)),
      json_Marshal = (\<lambda>d. Some (sdp d)),
      WriteJSON = (\<lambda>ws m. (False, ws @ [m])),
      WriteRTCP = (\<lambda>pc ssrc. pc),
      NewTrackLocalStaticRTP_fails = (\<lambda>c i s. False),
      json_Unmarshal_candidate = (\<lambda>d. if d = [] then None else Some \<lparr>Candidate = d\<rparr>),
      AddICECandidate = (\<lambda>pc c. (False, pc)),
      json_Unmarshal_answer = (\<lambda>d. if d = [] then None else Some \<lparr>sdp_type = ''answer'', sdp = d\<rparr>),
      SetRemoteDescription = (\<lambda>pc d. (False, pc)),
      pc_Close = (\<lambda>pc. pc\<lparr>pc_state := PeerConnectionStateClosed\<rparr>),
      ws_Close = (\<lambda>ws. ws)\<rparr>"

definition vp8 :: RTPCodecCapability where
  "vp8 = \<lparr>MimeType = ''video/VP8'', ClockRate = 90000\<rparr>"

definition localTrack :: "string \<Rightarrow> TrackLocalStaticRTP" where
  "localTrack i = \<lparr>tl_codec = vp8, tl_id = i, tl_streamID = ''stream''\<rparr>"

definition remoteTrack :: "string \<Rightarrow> TrackRemote" where
  "remoteTrack i = \<lparr>tr_codec = vp8, tr_id = i, tr_streamID = ''stream'', tr_ssrc = 1\<rparr>"

definition stubSession ::
  "PeerConnectionState \<Rightarrow> string option list \<Rightarrow> string option list \<Rightarrow>
   (stub_pc, websocketMessage list) peerConnectionState" where
  "stubSession st sends recvs =
     \<lparr>peerConnection =
        \<lparr>pc_state = st,
         pc_senders = map (\<lambda>(h, t). \<lparr>sender_handle = h, sender_track = t\<rparr>)
                        (zip [0..<length sends] sends),
         pc_receivers = map (\<lambda>(h, t). \<lparr>receiver_handle = h,
                                          receiver_track = map_option remoteTrack t\<rparr>)
                          (zip [0..<length recvs] recvs)\<rparr>,
      websocket = []\<rparr>"

text \<open>
  Example states. The registry holds the tracks \<open>T1\<close> and \<open>T2\<close>. The viewer still sends
  the unpublished \<open>T0\<close> and has published \<open>T1\<close> itself; the subscriber already sends
  \<open>T1\<close>, the only track of the small registry; the newcomer has nothing.
\<close>

definition twoTracks :: "(string \<times> TrackLocalStaticRTP) list" where
  "twoTracks = [(''T1'', localTrack ''T1''), (''T2'', localTrack ''T2'')]"

definition oneTrack :: "(string \<times> TrackLocalStaticRTP) list" where
  "oneTrack = [(''T1'', localTrack ''T1'')]"

definition viewer :: "(stub_pc, websocketMessage list) peerConnectionState" where
  "viewer = stubSession PeerConnectionStateConnected [Some ''T0'', None] [Some ''T1'']"

definition subscriber :: "(stub_pc, websocketMessage list) peerConnectionState" where
  "subscriber = stubSession PeerConnectionStateConnected [Some ''T1''] []"

definition newcomer :: "(stub_pc, websocketMessage list) peerConnectionState" where
  "newcomer = stubSession PeerConnectionStateConnected [] []"

definition leaver :: "(stub_pc, websocketMessage list) peerConnectionState" where
  "leaver = stubSession PeerConnectionStateClosed [] []"

definition room :: "(stub_pc, websocketMessage list) sfu" where
  "room = \<lparr>peerConnections = [viewer, leaver, newcomer], trackLocals = twoTracks\<rparr>"

definition settled :: "(stub_pc, websocketMessage list) sfu" where
  "settled = \<lparr>peerConnections = [subscriber], trackLocals = oneTrack\<rparr>"

text \<open>An engine on which every \<open>CreateOffer\<close> fails.\<close>

definition failingEngine :: "(stub_pc, websocketMessage list) engine" where
  "failingEngine = stubEngine\<lparr>CreateOffer := (\<lambda>pc. (None, pc))\<rparr>"

text \<open>A packet that carries a header extension.\<close>

definition samplePacket :: rtp_Packet where
  "samplePacket =
     \<lparr>Version = 2, Padding = False, Extension = True, Marker = False, PayloadType = 96,
      SequenceNumber = 7, Timestamp = 3000, SSRC = 1, CSRC = [], ExtensionProfile = 48862,
      Extensions = [\<lparr>ext_id = 1, ext_payload = [170]\<rparr>], Payload = [1, 2, 3]\<rparr>"







text \<open>
  A session whose connection has failed and is not closed yet, alone in a relay with
  the track \<open>T1\<close>.
\<close>

definition dropout :: "(stub_pc, websocketMessage list) peerConnectionState" where
  "dropout = stubSession PeerConnectionStateFailed [] []"

definition failedRoom :: "(stub_pc, websocketMessage list) sfu" where
  "failedRoom = \<lparr>peerConnections = [dropout], trackLocals = oneTrack\<rparr>"

section \<open>Properties of the loops of a pass\<close>

lemma staleSender_None: "sender_track s = None \<Longrightarrow> \<not> staleSender tracks s"
  by (simp add: staleSender_def)

lemma staleSender_Some:
  "sender_track s = Some tid \<Longrightarrow> staleSender tracks s = (map_of tracks tid = None)"
  by (simp add: staleSender_def)

lemma boundSenderIDs_Cons:
  "boundSenderIDs (s # ss) =
     (case sender_track s of None \<Rightarrow> [] | Some tid \<Rightarrow> [tid]) @ boundSenderIDs ss"
  by (simp add: boundSenderIDs_def)

lemma removedSenders_append: "removedSenders (xs @ ys) = removedSenders xs @ removedSenders ys"
  by (simp add: removedSenders_def)

lemma addedTracks_append: "addedTracks (xs @ ys) = addedTracks xs @ addedTracks ys"
  by (simp add: addedTracks_def)

lemma removedSenders_removes: "removedSenders (map RemoveTrackCall ss) = ss"
  by (induction ss) (simp_all add: removedSenders_def)

lemma removedSenders_adds: "removedSenders (map AddTrackCall ts) = []"
  by (induction ts) (simp_all add: removedSenders_def)

lemma addedTracks_removes: "addedTracks (map RemoveTrackCall ss) = []"
  by (induction ss) (simp_all add: addedTracks_def)

lemma addedTracks_adds: "addedTracks (map AddTrackCall ts) = ts"
  by (induction ts) (simp_all add: addedTracks_def)

text \<open>A sender loop that gets through has removed exactly the stale senders.\<close>

lemma sendersLoop_ok:
  "sendersLoop E tracks pc ex log ss = (False, pc', ex', log') \<Longrightarrow>
   log' = log @ map RemoveTrackCall (filter (staleSender tracks) ss) \<and>
   dom ex' = dom ex \<union> set (boundSenderIDs ss)"
proof (induction ss arbitrary: pc ex log)
  case Nil
  then show ?case by (simp add: boundSenderIDs_def)
next
  case (Cons s ss)
  show ?case
  proof (cases "sender_track s")
    case None
    with Cons.prems have "sendersLoop E tracks pc ex log ss = (False, pc', ex', log')" by simp
    from Cons.IH [OF this] None show ?thesis
      by (simp add: staleSender_None boundSenderIDs_Cons)
  next
    case (Some tid)
    show ?thesis
    proof (cases "map_of tracks tid = None")
      case True
      obtain err pc1 where r: "RemoveTrack E pc s = (err, pc1)" by (cases "RemoveTrack E pc s")
      with Cons.prems Some True have "\<not> err" by (auto split: if_splits)
      with Cons.prems Some True r
      have "sendersLoop E tracks pc1 (ex(tid \<mapsto> True)) (log @ [RemoveTrackCall s]) ss =
            (False, pc', ex', log')"
        by simp
      from Cons.IH [OF this] Some True show ?thesis
        by (auto simp: staleSender_Some boundSenderIDs_Cons)
    next
      case False
      with Cons.prems Some
      have "sendersLoop E tracks pc (ex(tid \<mapsto> True)) log ss = (False, pc', ex', log')"
        by auto
      from Cons.IH [OF this] Some False show ?thesis
        by (auto simp: staleSender_Some boundSenderIDs_Cons)
    qed
  qed
qed

text \<open>Whatever its outcome, the sender loop makes no call but \<open>RemoveTrack\<close>.\<close>

lemma sendersLoop_calls:
  "sendersLoop E tracks pc ex log ss = (err, pc', ex', log') \<Longrightarrow>
   \<exists>removed. log' = log @ map RemoveTrackCall removed"
proof (induction ss arbitrary: pc ex log)
  case Nil
  then have "log' = log @ map RemoveTrackCall []" by simp
  then show ?case by blast
next
  case (Cons s ss)
  show ?case
  proof (cases "sender_track s")
    case None
    with Cons.prems have "sendersLoop E tracks pc ex log ss = (err, pc', ex', log')" by simp
    from Cons.IH [OF this] show ?thesis .
  next
    case (Some tid)
    show ?thesis
    proof (cases "map_of tracks tid = None")
      case True
      obtain e pc1 where r: "RemoveTrack E pc s = (e, pc1)" by (cases "RemoveTrack E pc s")
      show ?thesis
      proof (cases e)
        case True
        with Cons.prems Some \<open>map_of tracks tid = None\<close> r
        have "log' = log @ map RemoveTrackCall [s]" by simp
        then show ?thesis by blast
      next
        case False
        with Cons.prems Some True r
        have "sendersLoop E tracks pc1 (ex(tid \<mapsto> True)) (log @ [RemoveTrackCall s]) ss =
              (err, pc', ex', log')"
          by simp
        from Cons.IH [OF this] obtain removed
          where "log' = (log @ [RemoveTrackCall s]) @ map RemoveTrackCall removed" ..
        then have "log' = log @ map RemoveTrackCall (s # removed)" by simp
        then show ?thesis by blast
      qed
    next
      case False
      with Cons.prems Some
      have "sendersLoop E tracks pc (ex(tid \<mapsto> True)) log ss = (err, pc', ex', log')"
        by auto
      from Cons.IH [OF this] show ?thesis .
    qed
  qed
qed

lemma receiversLoop_dom:
  "dom (receiversLoop ex rs) = dom ex \<union> set (boundReceiverIDs rs)"
  by (induction rs arbitrary: ex) (auto simp: boundReceiverIDs_def split: option.splits)

text \<open>An add loop that gets through has added exactly the tracks not yet entered.\<close>

lemma addLoop_ok:
  "addLoop E pc ex log tracks = (False, pc', log') \<Longrightarrow>
   log' = log @ map AddTrackCall (map snd (filter (\<lambda>kt. fst kt \<notin> dom ex) tracks))"
proof (induction tracks arbitrary: pc log)
  case Nil
  then show ?case by simp
next
  case (Cons kt tracks)
  obtain k t where kt: "kt = (k, t)" by (cases kt)
  show ?case
  proof (cases "ex k = None")
    case True
    obtain err pc1 where a: "AddTrack E pc t = (err, pc1)" by (cases "AddTrack E pc t")
    with Cons.prems kt True have ne: "\<not> err" by (auto split: if_splits)
    with Cons.prems kt True a
    have "addLoop E pc1 ex (log @ [AddTrackCall t]) tracks = (False, pc', log')" by simp
    from Cons.IH [OF this] kt True show ?thesis by (simp add: domIff)
  next
    case False
    with Cons.prems kt have "addLoop E pc ex log tracks = (False, pc', log')" by simp
    from Cons.IH [OF this] kt False show ?thesis by (simp add: domIff)
  qed
qed

text \<open>Whatever its outcome, the add loop only adds tracks whose key is not entered.\<close>

lemma addLoop_calls:
  "addLoop E pc ex log tracks = (err, pc', log') \<Longrightarrow>
   \<exists>added. log' = log @ map AddTrackCall (map snd added) \<and>
           set added \<subseteq> {kt \<in> set tracks. fst kt \<notin> dom ex}"
proof (induction tracks arbitrary: pc log)
  case Nil
  then have "log' = log @ map AddTrackCall (map snd []) \<and> set [] \<subseteq> {kt \<in> set []. fst kt \<notin> dom ex}"
    by simp
  then show ?case by blast
next
  case (Cons kt tracks)
  obtain k t where kt: "kt = (k, t)" by (cases kt)
  show ?case
  proof (cases "ex k = None")
    case True
    obtain e pc1 where a: "AddTrack E pc t = (e, pc1)" by (cases "AddTrack E pc t")
    show ?thesis
    proof (cases e)
      case True
      with Cons.prems kt \<open>ex k = None\<close> a
      have "log' = log @ map AddTrackCall (map snd [(k, t)])" by simp
      moreover have "set [(k, t)] \<subseteq> {x \<in> set (kt # tracks). fst x \<notin> dom ex}"
        using kt \<open>ex k = None\<close> by (simp add: domIff)
      ultimately show ?thesis by blast
    next
      case False
      with Cons.prems kt True a
      have "addLoop E pc1 ex (log @ [AddTrackCall t]) tracks = (err, pc', log')" by simp
      from Cons.IH [OF this] obtain added
        where ad: "log' = (log @ [AddTrackCall t]) @ map AddTrackCall (map snd added)"
          "set added \<subseteq> {x \<in> set tracks. fst x \<notin> dom ex}"
        by blast
      have "log' = log @ map AddTrackCall (map snd ((k, t) # added))" using ad by simp
      moreover have "set ((k, t) # added) \<subseteq> {x \<in> set (kt # tracks). fst x \<notin> dom ex}"
        using ad kt True by (auto simp: domIff)
      ultimately show ?thesis by blast
    qed
  next
    case False
    with Cons.prems kt have "addLoop E pc ex log tracks = (err, pc', log')" by simp
    from Cons.IH [OF this] obtain added
      where ad: "log' = log @ map AddTrackCall (map snd added)"
        "set added \<subseteq> {x \<in> set tracks. fst x \<notin> dom ex}"
      by blast
    have "set added \<subseteq> {x \<in> set (kt # tracks). fst x \<notin> dom ex}" using ad by auto
    with ad show ?thesis by blast
  qed
qed

text \<open>
  A session that is processed without error: the calls are the removals of the stale
  senders, the additions of the registry's tracks that are not accounted for, and the
  three steps of the offer.
\<close>

lemma syncSession_ok:
  assumes "syncSession E tracks p = (False, p', log)"
  shows "\<exists>offer offerString.
     log = map RemoveTrackCall (filter (staleSender tracks) (GetSenders E (peerConnection p))) @
           map AddTrackCall (map snd (filter (\<lambda>kt. fst kt \<notin> accountedFor E tracks p) tracks)) @
           [CreateOfferCall, SetLocalDescriptionCall offer,
            WriteJSONCall \<lparr>Event = ''offer'', Data = offerString\<rparr>] \<and>
     json_Marshal E offer = Some offerString"
proof -
  obtain err1 pc1 ex1 log1 where s1:
    "sendersLoop E tracks (peerConnection p) Map.empty [] (GetSenders E (peerConnection p)) =
     (err1, pc1, ex1, log1)"
    by (metis prod_cases4)
  from assms s1 have e1: "\<not> err1" by (auto simp: syncSession_def split: if_splits)
  with s1 have s1':
    "sendersLoop E tracks (peerConnection p) Map.empty [] (GetSenders E (peerConnection p)) =
     (False, pc1, ex1, log1)"
    by simp
  have pc1: "afterSenders E tracks p = pc1" by (simp add: afterSenders_def s1)
  have l1: "log1 = map RemoveTrackCall (filter (staleSender tracks) (GetSenders E (peerConnection p)))"
    using sendersLoop_ok [OF s1'] by simp
  have d1: "dom ex1 = set (boundSenderIDs (GetSenders E (peerConnection p)))"
    using sendersLoop_ok [OF s1'] by simp
  define ex2 where "ex2 = receiversLoop ex1 (GetReceivers E pc1)"
  have d2: "dom ex2 = accountedFor E tracks p"
    by (simp add: ex2_def receiversLoop_dom d1 accountedFor_def receiversSeen_def pc1)
  obtain err2 pc2 log2 where s2: "addLoop E pc1 ex2 log1 tracks = (err2, pc2, log2)"
    by (metis prod_cases3)
  from assms s1 e1 s2 have e2: "\<not> err2"
    by (auto simp: syncSession_def ex2_def split: if_splits)
  with s2 have s2': "addLoop E pc1 ex2 log1 tracks = (False, pc2, log2)" by simp
  have l2: "log2 = log1 @ map AddTrackCall (map snd (filter (\<lambda>kt. fst kt \<notin> accountedFor E tracks p) tracks))"
    using addLoop_ok [OF s2'] d2 by simp
  from assms s1 e1 s2 e2 show ?thesis
    unfolding syncSession_def ex2_def [symmetric]
    by (auto simp: l1 l2 ex2_def [symmetric] split: prod.splits option.splits if_splits)
qed

text \<open>Whatever the outcome, a track is only added when its key is not accounted for.\<close>

lemma syncSession_adds:
  assumes "syncSession E tracks p = (failed, p', log)" and "AddTrackCall t \<in> set log"
  shows "\<exists>k. (k, t) \<in> set tracks \<and> k \<notin> accountedFor E tracks p"
proof -
  obtain err1 pc1 ex1 log1 where s1:
    "sendersLoop E tracks (peerConnection p) Map.empty [] (GetSenders E (peerConnection p)) =
     (err1, pc1, ex1, log1)"
    by (metis prod_cases4)
  from sendersLoop_calls [OF s1] obtain removed where l1: "log1 = map RemoveTrackCall removed"
    by auto
  have no1: "AddTrackCall t \<notin> set log1" using l1 by auto
  show ?thesis
  proof (cases err1)
    case True
    with assms(1) s1 have "log = log1" by (simp add: syncSession_def)
    with no1 assms(2) show ?thesis by simp
  next
    case e1: False
    with s1 have s1':
      "sendersLoop E tracks (peerConnection p) Map.empty [] (GetSenders E (peerConnection p)) =
       (False, pc1, ex1, log1)"
      by simp
    have pc1: "afterSenders E tracks p = pc1" by (simp add: afterSenders_def s1)
    have d1: "dom ex1 = set (boundSenderIDs (GetSenders E (peerConnection p)))"
      using sendersLoop_ok [OF s1'] by simp
    define ex2 where "ex2 = receiversLoop ex1 (GetReceivers E pc1)"
    have d2: "dom ex2 = accountedFor E tracks p"
      by (simp add: ex2_def receiversLoop_dom d1 accountedFor_def receiversSeen_def pc1)
    obtain err2 pc2 log2 where s2: "addLoop E pc1 ex2 log1 tracks = (err2, pc2, log2)"
      by (metis prod_cases3)
    from addLoop_calls [OF s2] obtain added
      where ad: "log2 = log1 @ map AddTrackCall (map snd added)"
        "set added \<subseteq> {kt \<in> set tracks. fst kt \<notin> dom ex2}"
      by blast
    have "\<exists>rest. log = log2 @ rest \<and> AddTrackCall t \<notin> set rest"
    proof (cases err2)
      case True
      with assms(1) s1 e1 s2 have "log = log2 @ []"
        by (simp add: syncSession_def ex2_def [symmetric])
      then show ?thesis by fastforce
    next
      case e2: False
      obtain o3 pc3 where c3: "CreateOffer E pc2 = (o3, pc3)" by (cases "CreateOffer E pc2")
      show ?thesis
      proof (cases o3)
        case None
        with assms(1) s1 e1 s2 e2 c3 have "log = log2 @ [CreateOfferCall]"
          by (simp add: syncSession_def ex2_def [symmetric])
        then show ?thesis by fastforce
      next
        case (Some offer)
        obtain err4 pc4 where c4: "SetLocalDescription E pc3 offer = (err4, pc4)"
          by (cases "SetLocalDescription E pc3 offer")
        show ?thesis
        proof (cases "err4 \<or> json_Marshal E offer = None")
          case True
          with assms(1) s1 e1 s2 e2 c3 Some c4
          have "log = log2 @ [CreateOfferCall, SetLocalDescriptionCall offer]"
            by (auto simp: syncSession_def ex2_def [symmetric] split: if_splits)
          then show ?thesis by fastforce
        next
          case False
          then obtain offerString where m: "\<not> err4" "json_Marshal E offer = Some offerString"
            by auto
          obtain err5 ws' where c5:
            "WriteJSON E (websocket p) \<lparr>Event = ''offer'', Data = offerString\<rparr> = (err5, ws')"
            by (cases "WriteJSON E (websocket p) \<lparr>Event = ''offer'', Data = offerString\<rparr>")
          with assms(1) s1 e1 s2 e2 c3 Some c4 m
          have "log = log2 @ [CreateOfferCall, SetLocalDescriptionCall offer,
                              WriteJSONCall \<lparr>Event = ''offer'', Data = offerString\<rparr>]"
            by (simp add: syncSession_def ex2_def [symmetric])
          then show ?thesis by fastforce
        qed
      qed
    qed
    with assms(2) have "AddTrackCall t \<in> set log2" by auto
    with ad no1 have "t \<in> snd ` set added" by auto
    then obtain k where "(k, t) \<in> set added" by auto
    with ad(2) have "(k, t) \<in> set tracks \<and> k \<notin> dom ex2" by fastforce
    then have "(k, t) \<in> set tracks \<and> k \<notin> accountedFor E tracks p" unfolding d2 .
    then show ?thesis by blast
  qed
qed

section \<open>The shape of a pass\<close>

lemma callsAt_update: "i < j \<Longrightarrow> callsAt E tracks (pcs[i := p]) j = callsAt E tracks pcs j"
  by (simp add: callsAt_def)

lemma stopsAt_update: "i < j \<Longrightarrow> stopsAt E tracks (pcs[i := p]) j = stopsAt E tracks pcs j"
  by (simp add: stopsAt_def)

lemma processed_update: "i < j \<Longrightarrow> processed E tracks (pcs[i := p]) j = processed E tracks pcs j"
  by (simp add: processed_def)

lemma closedAt_update: "i < j \<Longrightarrow> closedAt E (pcs[i := p]) j = closedAt E pcs j"
  by (simp add: closedAt_def)

lemma map_upt_update:
  assumes "\<And>j. i < j \<Longrightarrow> f (pcs[i := p]) j = f pcs j"
  shows "map (f (pcs[i := p])) [Suc i..<k] = map (f pcs) [Suc i..<k]"
  using assms by (intro map_cong) auto

lemma pass_shape:
  "attemptSync_from E tracks i pcs log0 = (r, pcs', log') \<Longrightarrow> i \<le> length pcs \<Longrightarrow>
   \<exists>k. i \<le> k \<and> k \<le> length pcs \<and>
       log' = log0 @ concat (map (callsAt E tracks pcs) [i..<k]) \<and>
       (\<forall>j. i \<le> j \<and> j < k \<longrightarrow> (stopsAt E tracks pcs j \<longleftrightarrow> r \<and> Suc j = k)) \<and>
       (\<not> r \<longrightarrow> k = length pcs) \<and> (r \<longrightarrow> i < k) \<and>
       pcs' = take i pcs @
              map (processed E tracks pcs) [i..<(if r \<and> closedAt E pcs (k - 1) then k - 1 else k)] @
              drop k pcs"
proof (induction E tracks i pcs log0 arbitrary: r pcs' log' rule: attemptSync_from.induct)
  case (1 E tracks i pcs log0)
  let ?P = "\<lambda>k. i \<le> k \<and> k \<le> length pcs \<and>
       log' = log0 @ concat (map (callsAt E tracks pcs) [i..<k]) \<and>
       (\<forall>j. i \<le> j \<and> j < k \<longrightarrow> (stopsAt E tracks pcs j \<longleftrightarrow> r \<and> Suc j = k)) \<and>
       (\<not> r \<longrightarrow> k = length pcs) \<and> (r \<longrightarrow> i < k) \<and>
       pcs' = take i pcs @
              map (processed E tracks pcs) [i..<(if r \<and> closedAt E pcs (k - 1) then k - 1 else k)] @
              drop k pcs"
  show ?case
  proof (cases "i < length pcs")
    case False
    with "1.prems" have eq: "i = length pcs" "r = False" "pcs' = pcs" "log' = log0"
      by (auto simp: attemptSync_from.simps [of E tracks i pcs log0])
    have "?P i" using eq by auto
    then show ?thesis by blast
  next
    case lt: True
    show ?thesis
    proof (cases "closedAt E pcs i")
      case True
      with lt "1.prems" have eq: "r = True" "pcs' = take i pcs @ drop (Suc i) pcs" "log' = log0 @ [(i, Pruned)]"
        by (auto simp: attemptSync_from.simps [of E tracks i pcs log0] closedAt_def)
      have "?P (Suc i)"
        using eq lt True by (auto simp: callsAt_def stopsAt_def closedAt_def less_Suc_eq_le)
      then show ?thesis by blast
    next
      case nc: False
      obtain failed p' calls where ss: "syncSession E tracks (pcs ! i) = (failed, p', calls)"
        by (metis prod_cases3)
      show ?thesis
      proof (cases failed)
        case True
        with lt nc ss "1.prems" have eq: "r = True" "pcs' = pcs[i := p']" "log' = log0 @ map (Pair i) calls"
          by (auto simp: attemptSync_from.simps [of E tracks i pcs log0] closedAt_def)
        have u: "pcs[i := p'] = take i pcs @ [p'] @ drop (Suc i) pcs"
          using lt by (simp add: upd_conv_take_nth_drop)
        have "?P (Suc i)"
          using eq lt True nc ss u
          by (auto simp: callsAt_def stopsAt_def closedAt_def processed_def less_Suc_eq_le)
        then show ?thesis by blast
      next
        case ok: False
        with lt nc ss "1.prems"
        have rec: "attemptSync_from E tracks (Suc i) (pcs[i := p']) (log0 @ map (Pair i) calls) = (r, pcs', log')"
          by (auto simp: attemptSync_from.simps [of E tracks i pcs log0] closedAt_def)
        have nc': "ConnectionState E (peerConnection (pcs ! i)) \<noteq> PeerConnectionStateClosed"
          using nc by (simp add: closedAt_def)
        have "Suc i \<le> length (pcs[i := p'])" using lt by simp
        from "1.IH" [OF lt nc' ss [symmetric] refl ok rec this]
        obtain k where kall: "Suc i \<le> k \<and> k \<le> length (pcs[i := p']) \<and>
            log' = (log0 @ map (Pair i) calls) @ concat (map (callsAt E tracks (pcs[i := p'])) [Suc i..<k]) \<and>
            (\<forall>j. Suc i \<le> j \<and> j < k \<longrightarrow> (stopsAt E tracks (pcs[i := p']) j \<longleftrightarrow> r \<and> Suc j = k)) \<and>
            (\<not> r \<longrightarrow> k = length (pcs[i := p'])) \<and> (r \<longrightarrow> Suc i < k) \<and>
            pcs' = take (Suc i) (pcs[i := p']) @
              map (processed E tracks (pcs[i := p'])) [Suc i..<(if r \<and> closedAt E (pcs[i := p']) (k - 1) then k - 1 else k)] @
              drop k (pcs[i := p'])" ..
        from kall have k: "Suc i \<le> k" "k \<le> length pcs" by simp_all
        from kall have klog: "log' = (log0 @ map (Pair i) calls) @ concat (map (callsAt E tracks (pcs[i := p'])) [Suc i..<k])"
          by blast
        from kall have kstop: "\<forall>j. Suc i \<le> j \<and> j < k \<longrightarrow> (stopsAt E tracks (pcs[i := p']) j \<longleftrightarrow> r \<and> Suc j = k)"
          by blast
        from kall have kr: "\<not> r \<longrightarrow> k = length pcs" "r \<longrightarrow> Suc i < k" by simp_all
        from kall have kpcs: "pcs' = take (Suc i) (pcs[i := p']) @
              map (processed E tracks (pcs[i := p'])) [Suc i..<(if r \<and> closedAt E (pcs[i := p']) (k - 1) then k - 1 else k)] @
              drop k (pcs[i := p'])"
          by blast
        let ?m = "if r \<and> closedAt E pcs (k - 1) then k - 1 else k"
        have m: "Suc i \<le> ?m" using k kr by auto
        have cl: "closedAt E (pcs[i := p']) (k - 1) = closedAt E pcs (k - 1)" if r
          using that kr by (intro closedAt_update) auto
        have c1: "callsAt E tracks pcs i = map (Pair i) calls"
          using nc ss by (simp add: callsAt_def closedAt_def)
        have "[i..<k] = i # [Suc i..<k]" using k by (simp add: upt_conv_Cons)
        then have l: "log' = log0 @ concat (map (callsAt E tracks pcs) [i..<k])"
          using klog c1 by (simp add: map_upt_update [of i "callsAt E tracks", OF callsAt_update])
        have s0: "\<not> stopsAt E tracks pcs i"
          using nc ok ss by (simp add: stopsAt_def closedAt_def)
        have st: "\<forall>j. i \<le> j \<and> j < k \<longrightarrow> (stopsAt E tracks pcs j \<longleftrightarrow> r \<and> Suc j = k)"
        proof (intro allI impI)
          fix j assume j: "i \<le> j \<and> j < k"
          show "stopsAt E tracks pcs j \<longleftrightarrow> r \<and> Suc j = k"
          proof (cases "j = i")
            case True
            then show ?thesis using s0 kr by auto
          next
            case False
            with j have "Suc i \<le> j \<and> j < k" "i < j" by auto
            with kstop stopsAt_update [of i j E tracks pcs p'] show ?thesis by auto
          qed
        qed
        have t: "take (Suc i) (pcs[i := p']) = take i pcs @ [processed E tracks pcs i]"
          using lt ss by (simp add: take_Suc_conv_app_nth processed_def)
        have d: "drop k (pcs[i := p']) = drop k pcs" using k by simp
        have "[i..<?m] = i # [Suc i..<?m]" using m by (simp add: upt_conv_Cons)
        then have p: "pcs' = take i pcs @ map (processed E tracks pcs) [i..<?m] @ drop k pcs"
          using kpcs t d cl
          by (auto simp: map_upt_update [of i "processed E tracks", OF processed_update])
        have "?P k" using k l st kr p by auto
        then show ?thesis by blast
      qed
    qed
  qed
qed

text \<open>The same for \<open>attemptSync\<close>, which starts at index 0 with an empty log.\<close>

lemma callsAt_fst: "ic \<in> set (callsAt E tracks pcs m) \<Longrightarrow> fst ic = m"
  by (auto simp: callsAt_def split: if_splits)

lemma sessionCalls_callsAt:
  "sessionCalls j (callsAt E tracks pcs m) = (if m = j then map snd (callsAt E tracks pcs m) else [])"
proof (cases "m = j")
  case True
  have "filter (\<lambda>ic. fst ic = j) (callsAt E tracks pcs m) = callsAt E tracks pcs m"
    using True callsAt_fst [of _ E tracks pcs m] by (intro filter_True) blast
  then show ?thesis using True by (simp add: sessionCalls_def)
next
  case False
  have "filter (\<lambda>ic. fst ic = j) (callsAt E tracks pcs m) = []"
    using False callsAt_fst [of _ E tracks pcs m] by (auto simp: filter_empty_conv)
  then show ?thesis using False by (simp add: sessionCalls_def)
qed

lemma sessionCalls_append: "sessionCalls j (xs @ ys) = sessionCalls j xs @ sessionCalls j ys"
  by (simp add: sessionCalls_def)

lemma sessionCalls_Nil: "sessionCalls j [] = []"
  by (simp add: sessionCalls_def)

lemma sessionCalls_concat:
  "sessionCalls j (concat (map (callsAt E tracks pcs) [0..<k])) =
     (if j < k then map snd (callsAt E tracks pcs j) else [])"
proof (induction k)
  case 0
  then show ?case by (simp add: sessionCalls_Nil)
next
  case (Suc k)
  have "sessionCalls j (concat (map (callsAt E tracks pcs) [0..<Suc k])) =
        sessionCalls j (concat (map (callsAt E tracks pcs) [0..<k])) @
        sessionCalls j (callsAt E tracks pcs k)"
    by (simp add: sessionCalls_append)
  also have "\<dots> = (if j < k then map snd (callsAt E tracks pcs j) else []) @
        (if k = j then map snd (callsAt E tracks pcs k) else [])"
    by (simp only: Suc.IH sessionCalls_callsAt)
  also have "\<dots> = (if j < Suc k then map snd (callsAt E tracks pcs j) else [])"
    by (cases "j < k"; cases "k = j") auto
  finally show ?case .
qed


lemma attemptSync_shape:
  assumes "attemptSync E s = (r, s', log)"
  shows "\<exists>k. k \<le> length (peerConnections s) \<and>
       log = concat (map (callsAt E (trackLocals s) (peerConnections s)) [0..<k]) \<and>
       (\<forall>j. j < k \<longrightarrow> (stopsAt E (trackLocals s) (peerConnections s) j \<longleftrightarrow> r \<and> Suc j = k)) \<and>
       (\<not> r \<longrightarrow> k = length (peerConnections s)) \<and> (r \<longrightarrow> 0 < k) \<and>
       peerConnections s' =
         map (processed E (trackLocals s) (peerConnections s))
           [0..<(if r \<and> closedAt E (peerConnections s) (k - 1) then k - 1 else k)] @
         drop k (peerConnections s) \<and>
       trackLocals s' = trackLocals s"
proof -
  obtain r0 pcs' log0 where a0:
    "attemptSync_from E (trackLocals s) 0 (peerConnections s) [] = (r0, pcs', log0)"
    by (metis prod_cases3)
  with assms have eq: "r0 = r" "log0 = log" "s' = s\<lparr>peerConnections := pcs'\<rparr>"
    by (simp_all add: attemptSync_def)
  from a0 eq have a: "attemptSync_from E (trackLocals s) 0 (peerConnections s) [] = (r, pcs', log)"
    by simp
  have le: "0 \<le> length (peerConnections s)" by simp
  from pass_shape [OF a le] obtain k where kall:
    "0 \<le> k \<and> k \<le> length (peerConnections s) \<and>
       log = [] @ concat (map (callsAt E (trackLocals s) (peerConnections s)) [0..<k]) \<and>
       (\<forall>j. 0 \<le> j \<and> j < k \<longrightarrow> (stopsAt E (trackLocals s) (peerConnections s) j \<longleftrightarrow> r \<and> Suc j = k)) \<and>
       (\<not> r \<longrightarrow> k = length (peerConnections s)) \<and> (r \<longrightarrow> 0 < k) \<and>
       pcs' = take 0 (peerConnections s) @
              map (processed E (trackLocals s) (peerConnections s))
                [0..<(if r \<and> closedAt E (peerConnections s) (k - 1) then k - 1 else k)] @
              drop k (peerConnections s)" ..
  have p: "peerConnections s' = pcs'" and t: "trackLocals s' = trackLocals s"
    using eq(3) by simp_all
  from kall have "k \<le> length (peerConnections s) \<and>
       log = concat (map (callsAt E (trackLocals s) (peerConnections s)) [0..<k]) \<and>
       (\<forall>j. j < k \<longrightarrow> (stopsAt E (trackLocals s) (peerConnections s) j \<longleftrightarrow> r \<and> Suc j = k)) \<and>
       (\<not> r \<longrightarrow> k = length (peerConnections s)) \<and> (r \<longrightarrow> 0 < k) \<and>
       peerConnections s' =
         map (processed E (trackLocals s) (peerConnections s))
           [0..<(if r \<and> closedAt E (peerConnections s) (k - 1) then k - 1 else k)] @
         drop k (peerConnections s) \<and>
       trackLocals s' = trackLocals s"
    unfolding p t by simp
  then show ?thesis ..
qed


section \<open>Reconciling one session\<close>

text \<open>
  Claim C1, amended. For a session that a pass processes without error: the senders
  removed by \<open>RemoveTrack\<close> calls are exactly the senders bound to a track that is absent
  from the registry, and the tracks added by \<open>AddTrack\<close> calls are exactly the tracks of
  the registry whose identifier is not accounted for (bound to none of the session's
  senders or receivers). Senders bound to a track that is still published are kept, so
  it is the set of added tracks, not the session's sender set, that equals the registry
  minus the tracks accounted for.
\<close>

theorem session_reconciled:
  assumes "syncSession E tracks p = (False, p', log)"
  shows "removedSenders log = filter (staleSender tracks) (GetSenders E (peerConnection p)) \<and>
         addedTracks log = map snd (filter (\<lambda>kt. fst kt \<notin> accountedFor E tracks p) tracks)"
proof -
  define R where "R = filter (staleSender tracks) (GetSenders E (peerConnection p))"
  define A where "A = map snd (filter (\<lambda>kt. fst kt \<notin> accountedFor E tracks p) tracks)"
  from syncSession_ok [OF assms] obtain offer offerString where
    "log = map RemoveTrackCall R @ map AddTrackCall A @
           [CreateOfferCall, SetLocalDescriptionCall offer,
            WriteJSONCall \<lparr>Event = ''offer'', Data = offerString\<rparr>]"
    unfolding R_def A_def by blast
  moreover have "removedSenders [CreateOfferCall, SetLocalDescriptionCall offer,
            WriteJSONCall \<lparr>Event = ''offer'', Data = offerString\<rparr>] = []"
    by (simp add: removedSenders_def)
  moreover have "addedTracks [CreateOfferCall, SetLocalDescriptionCall offer,
            WriteJSONCall \<lparr>Event = ''offer'', Data = offerString\<rparr>] = []"
    by (simp add: addedTracks_def)
  ultimately have "removedSenders log = R \<and> addedTracks log = A"
    by (simp only: removedSenders_append addedTracks_append removedSenders_removes
        removedSenders_adds addedTracks_removes addedTracks_adds append_Nil append_Nil2 simp_thms)
  then show ?thesis unfolding R_def A_def .
qed

text \<open>
  The theorem at the viewer: its sender of the unpublished \<open>T0\<close> is removed, and \<open>T2\<close>
  is added but not \<open>T1\<close>, which it publishes itself.
\<close>

theorem session_reconciled_witness:
  "fst (syncSession stubEngine twoTracks viewer) = False \<and>
   removedSenders (snd (snd (syncSession stubEngine twoTracks viewer))) =
     [\<lparr>sender_handle = 0, sender_track = Some ''T0''\<rparr>] \<and>
   addedTracks (snd (snd (syncSession stubEngine twoTracks viewer))) = [localTrack ''T2'']"
proof -
  have f: "fst (syncSession stubEngine twoTracks viewer) = False"
    by code_simp
  then have h: "syncSession stubEngine twoTracks viewer =
      (False, fst (snd (syncSession stubEngine twoTracks viewer)),
       snd (snd (syncSession stubEngine twoTracks viewer)))"
    by (simp add: prod_eq_iff)
  have r: "filter (staleSender twoTracks) (GetSenders stubEngine (peerConnection viewer)) =
      [\<lparr>sender_handle = 0, sender_track = Some ''T0''\<rparr>]"
    by code_simp
  have a: "map snd (filter (\<lambda>kt. fst kt \<notin> accountedFor stubEngine twoTracks viewer) twoTracks) =
      [localTrack ''T2'']"
    by code_simp
  show ?thesis
    using f session_reconciled [OF h] r a by simp
qed

text \<open>
  The last part of claim C1 as it was stated does not hold: the subscriber already sends
  \<open>T1\<close>, keeps that sender, and so ends the pass with the senders \<open>{T1}\<close>, while the
  registry minus the tracks accounted for is empty.
\<close>

theorem kept_sender_counterexample:
  "fst (syncSession stubEngine oneTrack subscriber) = False \<and>
   set (boundSenderIDs (GetSenders stubEngine
          (peerConnection (fst (snd (syncSession stubEngine oneTrack subscriber)))))) = {''T1''} \<and>
   fst ` set oneTrack - accountedFor stubEngine oneTrack subscriber = {}"
  by code_simp

section \<open>No self-subscription\<close>

text \<open>
  Claim C2. A pass adds to a session no track whose identifier is bound to one of the
  session's receivers (a track the session published itself), whether the pass gets
  through or not. The registry is taken to store every track under its own identifier,
  as \<open>addTrack\<close> does.
\<close>

theorem no_self_subscription:
  assumes "attemptSync E s = (tryAgain, s', log)"
    and "registry_ok (trackLocals s)"
    and "(i, AddTrackCall trackLocal) \<in> set log"
  shows "i < length (peerConnections s) \<and>
         tl_id trackLocal \<notin>
           set (boundReceiverIDs (receiversSeen E (trackLocals s) (peerConnections s ! i)))"
proof -
  from attemptSync_shape [OF assms(1)] obtain k where k: "k \<le> length (peerConnections s)"
    and l: "log = concat (map (callsAt E (trackLocals s) (peerConnections s)) [0..<k])"
    by blast
  from assms(3) l obtain j where j: "j < k"
    and m: "(i, AddTrackCall trackLocal) \<in> set (callsAt E (trackLocals s) (peerConnections s) j)"
    by auto
  from callsAt_fst [OF m] have ij: "j = i" by simp
  from m ij have c: "AddTrackCall trackLocal \<in>
      set (snd (snd (syncSession E (trackLocals s) (peerConnections s ! i))))"
    by (auto simp: callsAt_def split: if_splits)
  have "syncSession E (trackLocals s) (peerConnections s ! i) =
      (fst (syncSession E (trackLocals s) (peerConnections s ! i)),
       fst (snd (syncSession E (trackLocals s) (peerConnections s ! i))),
       snd (snd (syncSession E (trackLocals s) (peerConnections s ! i))))"
    by simp
  from syncSession_adds [OF this c] obtain key where
    key: "(key, trackLocal) \<in> set (trackLocals s)"
      "key \<notin> accountedFor E (trackLocals s) (peerConnections s ! i)"
    by blast
  from key(1) assms(2) have "tl_id trackLocal = key"
    by (auto simp: registry_ok_def list_all_iff)
  with key(2) have "tl_id trackLocal \<notin>
      set (boundReceiverIDs (receiversSeen E (trackLocals s) (peerConnections s ! i)))"
    by (simp add: accountedFor_def)
  with j ij k show ?thesis by simp
qed

text \<open>
  The theorem in the example room: the viewer publishes \<open>T1\<close> and is given \<open>T2\<close>.
\<close>

theorem no_self_subscription_witness:
  "registry_ok (trackLocals room) \<and>
   (0, AddTrackCall (localTrack ''T2'')) \<in> set (snd (snd (attemptSync stubEngine room))) \<and>
   boundReceiverIDs (receiversSeen stubEngine (trackLocals room) (peerConnections room ! 0)) = [''T1''] \<and>
   tl_id (localTrack ''T2'') \<notin>
     set (boundReceiverIDs (receiversSeen stubEngine (trackLocals room) (peerConnections room ! 0)))"
proof -
  have h1: "attemptSync stubEngine room =
      (fst (attemptSync stubEngine room), fst (snd (attemptSync stubEngine room)),
       snd (snd (attemptSync stubEngine room)))"
    by simp
  have h2: "registry_ok (trackLocals room)"
    by code_simp
  have h3: "(0, AddTrackCall (localTrack ''T2'')) \<in> set (snd (snd (attemptSync stubEngine room)))"
    by code_simp
  have r: "boundReceiverIDs (receiversSeen stubEngine (trackLocals room) (peerConnections room ! 0)) = [''T1'']"
    by code_simp
  show ?thesis
    using h2 h3 r no_self_subscription [OF h1 h2 h3] by simp
qed

section \<open>The bounded retry\<close>

lemma attempt_lt: "(a :: 64 word) \<noteq> 25 \<Longrightarrow> unat a \<le> 25 \<Longrightarrow> unat a < 25"
proof -
  assume ne: "a \<noteq> 25" and le: "unat a \<le> 25"
  have "unat a \<noteq> 25"
  proof
    assume "unat a = 25"
    then have "unat a = unat (25 :: 64 word)" by simp
    then have "a = 25" by (simp only: word_unat_eq_iff)
    with ne show False by simp
  qed
  with le show ?thesis by simp
qed

lemma attempt_Suc: "unat (a :: 64 word) < 25 \<Longrightarrow> unat (a + 1) = Suc (unat a)"
  by (simp add: unat_word_ariths(1) unat_1)

lemma syncLoop_shape:
  "syncLoop E a s eff = (s', eff') \<Longrightarrow> unat a \<le> 25 \<Longrightarrow>
   \<exists>logs new. eff' = eff @ new \<and> replays E s new \<and>
     ((length logs < 25 - unat a \<and> (\<exists>log. new = map (Pass True) logs @ [Pass False log])) \<or>
      (length logs = 25 - unat a \<and>
       new = map (Pass True) logs @ [GoSleepThenSignal (time_Second * 3)]))"
proof (induction E a s eff arbitrary: s' eff' rule: syncLoop.induct)
  case (1 E a s eff)
  show ?case
  proof (cases "a = 25")
    case True
    with "1.prems" have "eff' = eff @ [GoSleepThenSignal (time_Second * 3)]"
      by (simp add: syncLoop.simps [of E a s eff])
    moreover have "replays E s [GoSleepThenSignal (time_Second * 3)]" by simp
    moreover have "length ([] :: (nat \<times> call) list list) = 25 - unat a \<and>
       [GoSleepThenSignal (time_Second * 3)] =
         map (Pass True) [] @ [GoSleepThenSignal (time_Second * 3)]"
      using True by simp
    ultimately show ?thesis by blast
  next
    case ne: False
    from ne "1.prems"(2) have lt: "unat a < 25" by (rule attempt_lt)
    obtain again s1 log where at: "attemptSync E s = (again, s1, log)"
      by (metis prod_cases3)
    show ?thesis
    proof (cases again)
      case False
      with "1.prems" ne at have "eff' = eff @ [Pass False log]"
        by (simp add: syncLoop.simps [of E a s eff])
      moreover have "replays E s [Pass False log]" using at False by simp
      moreover have "length ([] :: (nat \<times> call) list list) < 25 - unat a \<and>
         (\<exists>l. [Pass False log] = map (Pass True) [] @ [Pass False l])"
        using lt by simp
      ultimately show ?thesis by blast
    next
      case True
      with "1.prems" ne at
      have rec: "syncLoop E (a + 1) s1 (eff @ [Pass True log]) = (s', eff')"
        by (simp add: syncLoop.simps [of E a s eff])
      have le': "unat (a + 1) \<le> 25" using lt by (simp add: attempt_Suc)
      from "1.IH" [OF ne at [symmetric] refl _ rec le'] True
      obtain logs new where n: "eff' = (eff @ [Pass True log]) @ new" "replays E s1 new"
        and d: "(length logs < 25 - unat (a + 1) \<and> (\<exists>l. new = map (Pass True) logs @ [Pass False l])) \<or>
          (length logs = 25 - unat (a + 1) \<and>
           new = map (Pass True) logs @ [GoSleepThenSignal (time_Second * 3)])"
        by auto
      have e: "eff' = eff @ (Pass True log # new)" using n by simp
      have r: "replays E s (Pass True log # new)" using at True n by simp
      have "(length (log # logs) < 25 - unat a \<and>
            (\<exists>l. Pass True log # new = map (Pass True) (log # logs) @ [Pass False l])) \<or>
          (length (log # logs) = 25 - unat a \<and>
           Pass True log # new = map (Pass True) (log # logs) @ [GoSleepThenSignal (time_Second * 3)])"
        using d lt by (auto simp: attempt_Suc)
      with e r show ?thesis by blast
    qed
  qed
qed

text \<open>
  Claim C3. One call of \<open>signalPeerConnections\<close> runs \<open>attemptSync\<close> again and again,
  each time on the state the run before left, as long as it answers \<open>true\<close>: either
  fewer than 25 runs answer \<open>true\<close> and the next one answers \<open>false\<close>, which ends the
  loop, or 25 runs answer \<open>true\<close> and the call then starts one goroutine that sleeps
  three seconds before it calls \<open>signalPeerConnections\<close> again, and returns. The call
  always returns: \<open>syncLoop\<close> is a total function.
\<close>

theorem bounded_retry:
  "\<exists>logs. replays E s (snd (signalPeerConnections E s)) \<and>
     ((length logs < 25 \<and>
       (\<exists>log. snd (signalPeerConnections E s) = map (Pass True) logs @ [Pass False log])) \<or>
      (length logs = 25 \<and>
       snd (signalPeerConnections E s) =
         map (Pass True) logs @ [GoSleepThenSignal (time_Second * 3)]))"
proof -
  obtain s' eff' where l: "syncLoop E 0 s [] = (s', eff')"
    by (cases "syncLoop E 0 s []")
  then have e: "snd (signalPeerConnections E s) = eff'"
    by (simp add: signalPeerConnections_def)
  have "unat (0 :: 64 word) \<le> 25" by simp
  from syncLoop_shape [OF l this] show ?thesis
    unfolding e by auto
qed

text \<open>
  On the engine whose \<open>CreateOffer\<close> always fails the call makes 25 passes, each
  stopping at the offer of the first session, and then starts the one deferred retry.
\<close>

theorem bounded_retry_witness:
  "snd (signalPeerConnections failingEngine settled) =
     map (Pass True) (replicate 25 [(0, CreateOfferCall)]) @ [GoSleepThenSignal 3000000000] \<and>
   replays failingEngine settled (snd (signalPeerConnections failingEngine settled))"
proof -
  have c: "snd (signalPeerConnections failingEngine settled) =
     map (Pass True) (replicate 25 [(0, CreateOfferCall)]) @ [GoSleepThenSignal 3000000000]"
    by code_simp
  from bounded_retry [of failingEngine settled]
  have "replays failingEngine settled (snd (signalPeerConnections failingEngine settled))"
    by blast
  with c show ?thesis by blast
qed

section \<open>Pruning a closed session\<close>

text \<open>
  Claim C4, amended. The state that makes a pass remove a session is the closed
  connection (\<open>PeerConnectionStateClosed\<close>) alone. A pass handles the entries
  \<open>0, 1, ..., k - 1\<close> of the list it starts on, in this order and each once: its calls
  are the calls of these entries, one block after the other. It stops at an entry
  exactly when the entry's connection is closed or its processing fails, and then asks
  for a retry. A closed entry that the pass reaches is cut out: the entries before it
  stay (as processed), the entries after it stay untouched and in order, and nothing
  else is done to it. When no closed entry is reached no entry is removed. The retry,
  when attempts are left, is \<open>attemptSync\<close> again on the new list, from index 0.
\<close>

theorem restart_after_prune:
  assumes "attemptSync E s = (tryAgain, s', log)"
  shows "\<exists>k. k \<le> length (peerConnections s) \<and>
       log = concat (map (callsAt E (trackLocals s) (peerConnections s)) [0..<k]) \<and>
       (\<forall>j. j < k \<longrightarrow>
          (stopsAt E (trackLocals s) (peerConnections s) j \<longleftrightarrow> tryAgain \<and> Suc j = k)) \<and>
       (\<not> tryAgain \<longrightarrow> k = length (peerConnections s)) \<and>
       (\<forall>j. j < k \<and> closedAt E (peerConnections s) j \<longrightarrow>
          tryAgain \<and> Suc j = k \<and> sessionCalls j log = [Pruned] \<and>
          peerConnections s' =
            map (processed E (trackLocals s) (peerConnections s)) [0..<j] @
            drop (Suc j) (peerConnections s)) \<and>
       ((\<forall>j. j < k \<longrightarrow> \<not> closedAt E (peerConnections s) j) \<longrightarrow>
          peerConnections s' =
            map (processed E (trackLocals s) (peerConnections s)) [0..<k] @
            drop k (peerConnections s)) \<and>
       (\<forall>a eff. tryAgain \<and> a \<noteq> 25 \<longrightarrow>
          syncLoop E a s eff = syncLoop E (a + 1) s' (eff @ [Pass True log]))"
proof -
  let ?pcs = "peerConnections s" and ?tr = "trackLocals s"
  from attemptSync_shape [OF assms] obtain k where kall:
    "k \<le> length ?pcs \<and>
       log = concat (map (callsAt E ?tr ?pcs) [0..<k]) \<and>
       (\<forall>j. j < k \<longrightarrow> (stopsAt E ?tr ?pcs j \<longleftrightarrow> tryAgain \<and> Suc j = k)) \<and>
       (\<not> tryAgain \<longrightarrow> k = length ?pcs) \<and> (tryAgain \<longrightarrow> 0 < k) \<and>
       peerConnections s' =
         map (processed E ?tr ?pcs)
           [0..<(if tryAgain \<and> closedAt E ?pcs (k - 1) then k - 1 else k)] @
         drop k ?pcs \<and>
       trackLocals s' = trackLocals s" ..
  from kall have k: "k \<le> length ?pcs" by blast
  from kall have l: "log = concat (map (callsAt E ?tr ?pcs) [0..<k])" by blast
  from kall have st: "\<forall>j. j < k \<longrightarrow> (stopsAt E ?tr ?pcs j \<longleftrightarrow> tryAgain \<and> Suc j = k)" by blast
  from kall have r: "\<not> tryAgain \<longrightarrow> k = length ?pcs" by blast
  from kall have p: "peerConnections s' =
         map (processed E ?tr ?pcs)
           [0..<(if tryAgain \<and> closedAt E ?pcs (k - 1) then k - 1 else k)] @
         drop k ?pcs" by blast
  have cl: "tryAgain \<and> Suc j = k \<and> sessionCalls j log = [Pruned] \<and>
          peerConnections s' = map (processed E ?tr ?pcs) [0..<j] @ drop (Suc j) ?pcs"
    if j: "j < k \<and> closedAt E ?pcs j" for j
  proof -
    from j have "stopsAt E ?tr ?pcs j" by (simp add: stopsAt_def closedAt_def)
    with st j have t: "tryAgain" and e: "Suc j = k" by blast+
    from e have km: "k - 1 = j" by simp
    have "sessionCalls j log = map snd (callsAt E ?tr ?pcs j)"
      using j by (simp add: l sessionCalls_concat)
    also have "\<dots> = [Pruned]" using j by (simp add: callsAt_def closedAt_def)
    finally have c: "sessionCalls j log = [Pruned]" .
    have "peerConnections s' = map (processed E ?tr ?pcs) [0..<j] @ drop (Suc j) ?pcs"
      using p t j km e by simp
    with t e c show ?thesis by blast
  qed
  have nc: "peerConnections s' = map (processed E ?tr ?pcs) [0..<k] @ drop k ?pcs"
    if n: "\<forall>j. j < k \<longrightarrow> \<not> closedAt E ?pcs j"
  proof (cases "tryAgain \<and> closedAt E ?pcs (k - 1)")
    case True
    with kall have "k - 1 < k" by auto
    with n True show ?thesis by blast
  next
    case False
    from p show ?thesis unfolding if_not_P [OF False] .
  qed
  have lp: "syncLoop E a s eff = syncLoop E (a + 1) s' (eff @ [Pass True log])"
    if "tryAgain \<and> a \<noteq> 25" for a eff
    using that assms by (simp add: syncLoop.simps [of E a s eff])
  from k l st r cl nc lp show ?thesis by blast
qed

text \<open>
  In the example room the pass processes the viewer, cuts out the leaver at index 1 and
  asks for a retry; the newcomer moves to index 1, and the next pass processes both
  remaining entries, each once.
\<close>

theorem restart_after_prune_witness:
  "fst (attemptSync stubEngine room) = True \<and>
   closedAt stubEngine (peerConnections room) 1 \<and>
   map fst (snd (snd (attemptSync stubEngine room))) = [0, 0, 0, 0, 0, 1] \<and>
   sessionCalls 1 (snd (snd (attemptSync stubEngine room))) = [Pruned] \<and>
   peerConnections (fst (snd (attemptSync stubEngine room))) =
     [processed stubEngine (trackLocals room) (peerConnections room) 0, newcomer] \<and>
   fst (attemptSync stubEngine (fst (snd (attemptSync stubEngine room)))) = False \<and>
   map fst (snd (snd (attemptSync stubEngine (fst (snd (attemptSync stubEngine room)))))) =
     [0, 0, 0, 1, 1, 1, 1, 1]"
proof -
  have f: "fst (attemptSync stubEngine room) = True"
    by code_simp
  then have h: "attemptSync stubEngine room =
      (True, fst (snd (attemptSync stubEngine room)), snd (snd (attemptSync stubEngine room)))"
    by (simp add: prod_eq_iff)
  have c: "closedAt stubEngine (peerConnections room) 1"
    by code_simp
  have i: "map fst (snd (snd (attemptSync stubEngine room))) = [0, 0, 0, 0, 0, 1]"
    by code_simp
  have q: "sessionCalls 1 (snd (snd (attemptSync stubEngine room))) = [Pruned]"
    by code_simp
  have p: "peerConnections (fst (snd (attemptSync stubEngine room))) =
     [processed stubEngine (trackLocals room) (peerConnections room) 0, newcomer]"
    by code_simp
  have n: "fst (attemptSync stubEngine (fst (snd (attemptSync stubEngine room)))) = False"
    by code_simp
  have m: "map fst (snd (snd (attemptSync stubEngine (fst (snd (attemptSync stubEngine room)))))) =
     [0, 0, 0, 1, 1, 1, 1, 1]"
    by code_simp
  show ?thesis
    using restart_after_prune [OF h] f c i q p n m by blast
qed

text \<open>
  Claim C4 as it was stated, for every terminal state, does not hold: a session whose
  connection has failed and is not closed is not removed. The pass keeps it, adds the
  published track to it and sends it an offer, and asks for no retry.
\<close>

theorem failed_session_counterexample:
  "ConnectionState stubEngine (peerConnection (peerConnections failedRoom ! 0)) =
     PeerConnectionStateFailed \<and>
   fst (attemptSync stubEngine failedRoom) = False \<and>
   length (peerConnections (fst (snd (attemptSync stubEngine failedRoom)))) = 1 \<and>
   snd (snd (attemptSync stubEngine failedRoom)) =
     [(0, AddTrackCall (localTrack ''T1'')), (0, CreateOfferCall),
      (0, SetLocalDescriptionCall \<lparr>sdp_type = ''offer'', sdp = ''v=0''\<rparr>),
      (0, WriteJSONCall \<lparr>Event = ''offer'', Data = ''v=0''\<rparr>)]"
  by code_simp

section \<open>The offer of every pass\<close>




section \<open>The registry across a call of signalPeerConnections\<close>

lemma attemptSync_trackLocals:
  "attemptSync E s = (r, s', log) \<Longrightarrow> trackLocals s' = trackLocals s"
  by (cases "attemptSync_from E (trackLocals s) 0 (peerConnections s) []")
    (auto simp: attemptSync_def)

lemma syncLoop_trackLocals:
  "syncLoop E a s eff = (s', eff') \<Longrightarrow> trackLocals s' = trackLocals s"
proof (induction E a s eff arbitrary: s' eff' rule: syncLoop.induct)
  case (1 E a s eff)
  show ?case
  proof (cases "a = 25")
    case True
    with "1.prems" show ?thesis by (simp add: syncLoop.simps [of E a s eff])
  next
    case ne: False
    obtain again s1 log where at: "attemptSync E s = (again, s1, log)"
      by (metis prod_cases3)
    have t1: "trackLocals s1 = trackLocals s" using at by (rule attemptSync_trackLocals)
    show ?thesis
    proof (cases again)
      case False
      with "1.prems" ne at have "s' = s1" by (simp add: syncLoop.simps [of E a s eff])
      with t1 show ?thesis by simp
    next
      case True
      with "1.prems" ne at
      have rec: "syncLoop E (a + 1) s1 (eff @ [Pass True log]) = (s', eff')"
        by (simp add: syncLoop.simps [of E a s eff])
      from "1.IH" [OF ne at [symmetric] refl _ rec] True t1 show ?thesis by simp
    qed
  qed
qed

lemma signalPeerConnections_trackLocals:
  "trackLocals (fst (signalPeerConnections E s)) = trackLocals s"
proof -
  obtain s' eff where l: "syncLoop E 0 s [] = (s', eff)" by (cases "syncLoop E 0 s []")
  from syncLoop_trackLocals [OF l] l show ?thesis
    by (simp add: signalPeerConnections_def dispatchKeyFrame_def)
qed

lemma signalPeerConnections_passes:
  "\<exists>r log more. snd (signalPeerConnections E s) = Pass r log # more"
proof -
  obtain s' eff' where l: "syncLoop E 0 s [] = (s', eff')" by (cases "syncLoop E 0 s []")
  have "unat (0 :: 64 word) \<le> 25" by simp
  from syncLoop_shape [OF l this] obtain logs new where n: "eff' = new"
    and d: "(length logs < 25 \<and> (\<exists>log. new = map (Pass True) logs @ [Pass False log])) \<or>
      (length logs = 25 \<and> new = map (Pass True) logs @ [GoSleepThenSignal (time_Second * 3)])"
    by auto
  have "\<exists>r log more. new = Pass r log # more"
  proof (cases logs)
    case Nil
    with d show ?thesis by auto
  next
    case (Cons x xs)
    with d show ?thesis by auto
  qed
  with n l show ?thesis by (simp add: signalPeerConnections_def)
qed

text \<open>The passes of a call are runs of \<open>attemptSync\<close>, each on the state left by the last.\<close>

lemma signalPeerConnections_replays:
  "replays E s (snd (signalPeerConnections E s))"
proof -
  obtain s' eff' where l: "syncLoop E 0 s [] = (s', eff')" by (cases "syncLoop E 0 s []")
  have "unat (0 :: 64 word) \<le> 25" by simp
  from syncLoop_shape [OF l this] have "replays E s eff'" by auto
  with l show ?thesis by (simp add: signalPeerConnections_def)
qed

section \<open>Unpublishing\<close>

text \<open>
  Claim C9. \<open>removeTrack\<close> of a track whose identifier is not a key of the registry
  leaves the registry as it is. The call cannot fail (it has no error result); it is
  the call \<open>signalPeerConnections\<close> and nothing else.
\<close>

theorem unpublish_absent:
  assumes "tl_id t \<notin> fst ` set (trackLocals s)"
  shows "trackLocals (fst (removeTrack E s t)) = trackLocals s \<and>
         removeTrack E s t = signalPeerConnections E s"
proof -
  from assms have "AList.delete (tl_id t) (trackLocals s) = trackLocals s"
    by (rule delete_id)
  then have "removeTrack E s t = signalPeerConnections E s"
    by (simp add: removeTrack_def)
  then show ?thesis by (simp add: signalPeerConnections_trackLocals)
qed

text \<open>The theorem in the example room, where no track \<open>T9\<close> is published.\<close>

theorem unpublish_absent_witness:
  "tl_id (localTrack ''T9'') \<notin> fst ` set (trackLocals room) \<and>
   trackLocals (fst (removeTrack stubEngine room (localTrack ''T9''))) = twoTracks"
proof -
  have h: "tl_id (localTrack ''T9'') \<notin> fst ` set (trackLocals room)"
    by code_simp
  have t: "trackLocals room = twoTracks"
    by (simp add: room_def)
  from unpublish_absent [OF h, of stubEngine]
  have "trackLocals (fst (removeTrack stubEngine room (localTrack ''T9''))) = trackLocals room"
    by (rule conjunct1)
  with h t show ?thesis by simp
qed

section \<open>Properties of the relay loop\<close>

lemma relayLoop_acc:
  "relayLoop written inputs = (fst (relayLoop [] inputs), written @ snd (relayLoop [] inputs))"
proof (induction inputs arbitrary: written)
  case Nil
  then show ?case by simp
next
  case (Cons x inputs)
  show ?case
  proof (cases x)
    case ReadFails
    then show ?thesis by simp
  next
    case UnmarshalFails
    then show ?thesis by simp
  next
    case (Packet pkt writeErr)
    show ?thesis
    proof (cases writeErr)
      case True
      with Packet show ?thesis by (simp add: Let_def)
    next
      case False
      let ?p = "pkt\<lparr>Extension := False, Extensions := []\<rparr>"
      have "relayLoop written (x # inputs) = relayLoop (written @ [?p]) inputs"
        using Packet False by (simp add: Let_def)
      also have "\<dots> = (fst (relayLoop [] inputs), (written @ [?p]) @ snd (relayLoop [] inputs))"
        by (rule Cons.IH)
      finally have a: "relayLoop written (x # inputs) =
          (fst (relayLoop [] inputs), written @ ?p # snd (relayLoop [] inputs))"
        by simp
      have "relayLoop [] (x # inputs) = relayLoop [?p] inputs"
        using Packet False by (simp add: Let_def)
      also have "\<dots> = (fst (relayLoop [] inputs), [?p] @ snd (relayLoop [] inputs))"
        by (rule Cons.IH)
      finally have b: "relayLoop [] (x # inputs) =
          (fst (relayLoop [] inputs), ?p # snd (relayLoop [] inputs))"
        by simp
      show ?thesis unfolding a b by simp
    qed
  qed
qed

lemma relayLoop_Packet:
  "relayLoop [] (Packet pkt False # inputs) =
     (fst (relayLoop [] inputs), cleared pkt # snd (relayLoop [] inputs))"
proof -
  have "relayLoop [] (Packet pkt False # inputs) = relayLoop [cleared pkt] inputs"
    by (simp add: Let_def cleared_def)
  also have "\<dots> = (fst (relayLoop [] inputs), [cleared pkt] @ snd (relayLoop [] inputs))"
    by (rule relayLoop_acc)
  finally show ?thesis by simp
qed

lemma relayLoop_running:
  "list_all (\<lambda>x. \<not> turnFails x) pre \<Longrightarrow>
   relayLoop [] pre = (Reading, map cleared (packetsOf pre))"
proof (induction pre)
  case Nil
  then show ?case by simp
next
  case (Cons x pre)
  then obtain pkt where x: "x = Packet pkt False" and g: "list_all (\<lambda>x. \<not> turnFails x) pre"
    by (cases x) auto
  from Cons.IH [OF g] show ?case unfolding x relayLoop_Packet by simp
qed

lemma relayLoop_stops:
  "list_all (\<lambda>x. \<not> turnFails x) pre \<Longrightarrow> turnFails bad \<Longrightarrow>
   relayLoop [] (pre @ bad # rest) = (Returned, map cleared (packetsOf (pre @ [bad])))"
proof (induction pre)
  case Nil
  then show ?case by (cases bad) (simp_all add: Let_def cleared_def)
next
  case (Cons x pre)
  then obtain pkt where x: "x = Packet pkt False" and g: "list_all (\<lambda>x. \<not> turnFails x) pre"
    by (cases x) auto
  from Cons.IH [OF g Cons.prems(2)] show ?case
    unfolding x append_Cons relayLoop_Packet by simp
qed

lemma relayLoop_cleared: "\<exists>ps. snd (relayLoop [] inputs) = map cleared ps"
proof (induction inputs)
  case Nil
  have "snd (relayLoop [] []) = map cleared []" by simp
  then show ?case ..
next
  case (Cons x inputs)
  then obtain ps where ps: "snd (relayLoop [] inputs) = map cleared ps" ..
  show ?case
  proof (cases x)
    case ReadFails
    then have "snd (relayLoop [] (x # inputs)) = map cleared []" by simp
    then show ?thesis ..
  next
    case UnmarshalFails
    then have "snd (relayLoop [] (x # inputs)) = map cleared []" by simp
    then show ?thesis ..
  next
    case (Packet pkt writeErr)
    show ?thesis
    proof (cases writeErr)
      case True
      with Packet have "snd (relayLoop [] (x # inputs)) = map cleared [pkt]"
        by (simp add: Let_def cleared_def)
      then show ?thesis ..
    next
      case False
      with Packet have "relayLoop [] (x # inputs) =
          (fst (relayLoop [] inputs), cleared pkt # snd (relayLoop [] inputs))"
        by (simp only: relayLoop_Packet)
      with ps have "snd (relayLoop [] (x # inputs)) = map cleared (pkt # ps)"
        by simp
      then show ?thesis ..
    qed
  qed
qed

text \<open>
  Claim C8. Every packet that a relay loop hands to \<open>WriteRTP\<close> has the extension flag
  off and no extensions.
\<close>

theorem extensions_cleared:
  assumes "pkt \<in> set (snd (relayLoop [] inputs))"
  shows "\<not> Extension pkt \<and> Extensions pkt = []"
proof -
  from relayLoop_cleared obtain ps where "snd (relayLoop [] inputs) = map cleared ps" ..
  with assms obtain p where "pkt = cleared p" by auto
  then show ?thesis by (simp add: cleared_def)
qed

text \<open>The theorem at a packet that arrives with an extension.\<close>

theorem extensions_cleared_witness:
  "Extension samplePacket \<and>
   samplePacket\<lparr>Extension := False, Extensions := []\<rparr>
     \<in> set (snd (relayLoop [] [Packet samplePacket False, Packet samplePacket False])) \<and>
   \<not> Extension (samplePacket\<lparr>Extension := False, Extensions := []\<rparr>) \<and>
   Extensions (samplePacket\<lparr>Extension := False, Extensions := []\<rparr>) = []"
proof -
  have e: "Extension samplePacket"
    by (simp add: samplePacket_def)
  have h: "samplePacket\<lparr>Extension := False, Extensions := []\<rparr>
     \<in> set (snd (relayLoop [] [Packet samplePacket False, Packet samplePacket False]))"
    by (simp add: Let_def)
  from extensions_cleared [OF h] e h show ?thesis by simp
qed

text \<open>
  Claim C6. As long as no turn fails the loop goes on reading and the track stays
  published. At the first turn that fails (read, unmarshalling or write) the loop returns:
  what comes after that turn is never read, whatever it is. The deferred \<open>removeTrack\<close>
  then takes the track's identifier out of the registry and runs
  \<open>signalPeerConnections\<close>, which makes at least one pass; its passes are runs of
  \<open>attemptSync\<close>, the first on the state with the identifier deleted.
\<close>

theorem relay_ends_at_first_error:
  assumes "list_all (\<lambda>x. \<not> turnFails x) pre" and "turnFails bad"
  shows "relayThenRemove E s trackLocal pre = (Reading, s, map cleared (packetsOf pre), []) \<and>
         relayLoop [] (pre @ bad # rest) = (Returned, map cleared (packetsOf (pre @ [bad]))) \<and>
         relayThenRemove E s trackLocal (pre @ bad # rest) =
           (Returned, fst (removeTrack E s trackLocal), map cleared (packetsOf (pre @ [bad])),
            snd (removeTrack E s trackLocal)) \<and>
         trackLocals (fst (removeTrack E s trackLocal)) =
           AList.delete (tl_id trackLocal) (trackLocals s) \<and>
         tl_id trackLocal \<notin> fst ` set (trackLocals (fst (removeTrack E s trackLocal))) \<and>
         (\<exists>r log more. snd (removeTrack E s trackLocal) = Pass r log # more) \<and>
         replays E (s\<lparr>trackLocals := AList.delete (tl_id trackLocal) (trackLocals s)\<rparr>)
           (snd (removeTrack E s trackLocal))"
proof -
  have a: "relayThenRemove E s trackLocal pre = (Reading, s, map cleared (packetsOf pre), [])"
    by (simp add: relayThenRemove_def relayLoop_running [OF assms(1)])
  have b: "relayLoop [] (pre @ bad # rest) = (Returned, map cleared (packetsOf (pre @ [bad])))"
    using assms by (rule relayLoop_stops)
  have c: "relayThenRemove E s trackLocal (pre @ bad # rest) =
           (Returned, fst (removeTrack E s trackLocal), map cleared (packetsOf (pre @ [bad])),
            snd (removeTrack E s trackLocal))"
    by (simp add: relayThenRemove_def b split: prod.splits)
  have d: "trackLocals (fst (removeTrack E s trackLocal)) =
           AList.delete (tl_id trackLocal) (trackLocals s)"
    by (simp add: removeTrack_def signalPeerConnections_trackLocals)
  have e: "tl_id trackLocal \<notin> fst ` set (trackLocals (fst (removeTrack E s trackLocal)))"
    unfolding d by (rule delete_notin_dom)
  have f: "\<exists>r log more. snd (removeTrack E s trackLocal) = Pass r log # more"
    unfolding removeTrack_def by (rule signalPeerConnections_passes)
  have g: "replays E (s\<lparr>trackLocals := AList.delete (tl_id trackLocal) (trackLocals s)\<rparr>)
           (snd (removeTrack E s trackLocal))"
    unfolding removeTrack_def by (rule signalPeerConnections_replays)
  from a b c d e f g show ?thesis by blast
qed

text \<open>
  The theorem for the relay loop of \<open>T1\<close> in the example room: one packet is relayed,
  the second read fails, the packet that would come next is never read, and the
  registry is left with \<open>T2\<close>.
\<close>

theorem relay_ends_at_first_error_witness:
  "list_all (\<lambda>x. \<not> turnFails x) [Packet samplePacket False] \<and> turnFails ReadFails \<and>
   fst (relayThenRemove stubEngine room (localTrack ''T1'')
          ([Packet samplePacket False] @ ReadFails # [Packet samplePacket False])) = Returned \<and>
   map fst (trackLocals (fst (removeTrack stubEngine room (localTrack ''T1'')))) = [''T2'']"
proof -
  have h1: "list_all (\<lambda>x. \<not> turnFails x) [Packet samplePacket False]"
    by simp
  have h2: "turnFails ReadFails"
    by simp
  have t: "AList.delete (tl_id (localTrack ''T1'')) (trackLocals room) = [(''T2'', localTrack ''T2'')]"
    by (simp add: room_def twoTracks_def localTrack_def AList.delete_eq)
  from relay_ends_at_first_error [OF h1 h2, of stubEngine room "localTrack ''T1''" "[Packet samplePacket False]"]
  have "relayThenRemove stubEngine room (localTrack ''T1'')
          ([Packet samplePacket False] @ ReadFails # [Packet samplePacket False]) =
           (Returned, fst (removeTrack stubEngine room (localTrack ''T1'')),
            map cleared (packetsOf ([Packet samplePacket False] @ [ReadFails])),
            snd (removeTrack stubEngine room (localTrack ''T1'')))"
    and "trackLocals (fst (removeTrack stubEngine room (localTrack ''T1''))) =
           AList.delete (tl_id (localTrack ''T1'')) (trackLocals room)"
    by blast+
  with h1 h2 t show ?thesis by simp
qed

section \<open>The registry and the running relay loops\<close>

lemma addTrack_registry:
  "addTrack E s t = Inr (trackLocal, s', eff) \<Longrightarrow>
   trackLocal = \<lparr>tl_codec = tr_codec t, tl_id = tr_id t, tl_streamID = tr_streamID t\<rparr> \<and>
   trackLocals s' = AList.update (tr_id t) trackLocal (trackLocals s)"
proof -
  assume a: "addTrack E s t = Inr (trackLocal, s', eff)"
  let ?tl = "\<lparr>tl_codec = tr_codec t, tl_id = tr_id t, tl_streamID = tr_streamID t\<rparr>"
  let ?s = "s\<lparr>trackLocals := AList.update (tr_id t) ?tl (trackLocals s)\<rparr>"
  from a have nf: "\<not> NewTrackLocalStaticRTP_fails E (tr_codec t) (tr_id t) (tr_streamID t)"
    by (auto simp: addTrack_def split: if_splits)
  then have b: "addTrack E s t = Inr (?tl, signalPeerConnections E ?s)"
    by (simp add: addTrack_def Let_def)
  from a [unfolded b] have e: "(?tl, signalPeerConnections E ?s) = (trackLocal, s', eff)"
    by (simp only: sum.inject)
  from e have t: "?tl = trackLocal" by blast
  from e have "signalPeerConnections E ?s = (s', eff)" by blast
  then have "s' = fst (signalPeerConnections E ?s)" by simp
  then have "trackLocals s' = AList.update (tr_id t) ?tl (trackLocals s)"
    by (simp add: signalPeerConnections_trackLocals)
  with t show ?thesis by blast
qed

lemma removeTrack_registry:
  "trackLocals (fst (removeTrack E s t)) = AList.delete (tl_id t) (trackLocals s)"
  by (simp add: removeTrack_def signalPeerConnections_trackLocals)








section \<open>Malformed signaling input\<close>





section \<open>The registry stays keyed by track identifier\<close>

text \<open>
  \<open>addTrack\<close> and \<open>removeTrack\<close> keep every entry of the registry under the identifier
  of its track, so a registry that starts empty always is of this kind.
\<close>

lemma registry_ok_update:
  "registry_ok al \<Longrightarrow> tl_id v = k \<Longrightarrow> registry_ok (AList.update k v al)"
  by (induction al) (auto simp: registry_ok_def)

lemma registry_ok_delete: "registry_ok al \<Longrightarrow> registry_ok (AList.delete k al)"
  by (induction al) (auto simp: registry_ok_def)

lemma addTrack_registry_ok:
  assumes "addTrack E s t = Inr (trackLocal, s', eff)" and "registry_ok (trackLocals s)"
  shows "registry_ok (trackLocals s')"
proof -
  from addTrack_registry [OF assms(1)]
  have t: "trackLocal = \<lparr>tl_codec = tr_codec t, tl_id = tr_id t, tl_streamID = tr_streamID t\<rparr>"
    and r: "trackLocals s' = AList.update (tr_id t) trackLocal (trackLocals s)"
    by blast+
  from t have "tl_id trackLocal = tr_id t" by simp
  with assms(2) show ?thesis unfolding r by (rule registry_ok_update)
qed

lemma removeTrack_registry_ok:
  "registry_ok (trackLocals s) \<Longrightarrow> registry_ok (trackLocals (fst (removeTrack E s t)))"
  unfolding removeTrack_registry by (rule registry_ok_delete)

end
